theory Spec2Isabelle
  imports Complex_Main "HOL-Library.Char_ord" "HOL-Library.List_Lexorder"
    "HOL-Library.Product_Lexorder" "HOL-Library.Sublist" "HOL-Library.Multiset"
begin

section \<open>Values of the Python runtime\<close>

text \<open>
  The harvester works on parsed JSON: what \<^verbatim>\<open>r.json()\<close> returns is \<^verbatim>\<open>None\<close>, a bool, an
  int, a float, a str, a list or a dict. Python ints are unbounded (\<open>int\<close>). Floats are
  modelled as exact rationals: the rounding error of binary floating point, NaN, the
  infinities and the OverflowError of an int too large for a float are outside the model.
  A dict is the list of its items, the keys distinct. Strings are lists of 8-bit
  characters; the case mapping and the character classes below are those of ASCII.
\<close>

datatype json =
    JNull
  | JBool bool
  | JInt int
  | JFloat rat
  | JStr string
  | JArr "json list"
  | JObj "(string \<times> json) list"

datatype error = AttributeError | TypeError | ValueError | OverflowError | Unmodelled

text \<open>
  The first four are the exceptions of Python. \<open>Unmodelled\<close> is not an exception: it marks
  the one place where the model stops short of Python (the final sort, on rows it cannot
  always order), and says nothing of what Python does there.
\<close>

text \<open>Truth value of an object (\<^verbatim>\<open>if x\<close>, \<^verbatim>\<open>not x\<close>, \<^verbatim>\<open>x or y\<close>).\<close>

fun truthy :: "json \<Rightarrow> bool" where
  "truthy JNull = False"
| "truthy (JBool b) = b"
| "truthy (JInt i) = (i \<noteq> 0)"
| "truthy (JFloat r) = (r \<noteq> 0)"
| "truthy (JStr s) = (s \<noteq> [])"
| "truthy (JArr xs) = (xs \<noteq> [])"
| "truthy (JObj kvs) = (kvs \<noteq> [])"

text \<open>\<^verbatim>\<open>x or d\<close>.\<close>

definition py_or :: "json \<Rightarrow> json \<Rightarrow> json" where
  "py_or x d = (if truthy x then x else d)"

text \<open>\<^verbatim>\<open>x.get(k, d)\<close>: only a dict has the method; every other object raises AttributeError.\<close>

fun dict_get :: "json \<Rightarrow> string \<Rightarrow> json \<Rightarrow> error + json" where
  "dict_get (JObj kvs) k d = Inr (case map_of kvs k of None \<Rightarrow> d | Some v \<Rightarrow> v)"
| "dict_get _ k d = Inl AttributeError"

text \<open>\<^verbatim>\<open>x * f\<close> for a float \<open>f\<close>: defined on numbers (a bool is the int 0 or 1).\<close>

fun times_float :: "json \<Rightarrow> rat \<Rightarrow> error + rat" where
  "times_float (JInt i) f = Inr (of_int i * f)"
| "times_float (JFloat r) f = Inr (r * f)"
| "times_float (JBool b) f = Inr ((if b then 1 else 0) * f)"
| "times_float _ f = Inl TypeError"

text \<open>\<^verbatim>\<open>round(x, 2)\<close>: to the nearest multiple of 1/100, a tie to the even one.\<close>

definition round2 :: "rat \<Rightarrow> rat" where
  "round2 x =
     (let y = x * 100; f = \<lfloor>y\<rfloor>; d = y - of_int f
      in of_int (if d < 1 / 2 then f else if 1 / 2 < d then f + 1
                 else if even f then f else f + 1) / 100)"

section \<open>Strings\<close>

text \<open>The newline, and the ASCII letters and digits.\<close>

definition NL :: string where
  "NL = [CHR 0x0A]"

definition UPPERCASE :: string where
  "UPPERCASE = ''ABCDEFGHIJKLMNOPQRSTUVWXYZ''"

definition LOWERCASE :: string where
  "LOWERCASE = ''abcdefghijklmnopqrstuvwxyz''"

definition DIGITS :: string where
  "DIGITS = ''0123456789''"

definition lower_char :: "char \<Rightarrow> char" where
  "lower_char c = (case map_of (zip UPPERCASE LOWERCASE) c of None \<Rightarrow> c | Some d \<Rightarrow> d)"

text \<open>\<^verbatim>\<open>s.lower()\<close>.\<close>

definition lower :: "string \<Rightarrow> string" where
  "lower s = map lower_char s"

text \<open>The class \<^verbatim>\<open>\s\<close> of the regular expressions, and what \<^verbatim>\<open>strip()\<close> removes.\<close>

definition is_space :: "char \<Rightarrow> bool" where
  "is_space c =
     (c \<in> set [CHR 0x09, CHR 0x0A, CHR 0x0B, CHR 0x0C, CHR 0x0D,
                CHR 0x1C, CHR 0x1D, CHR 0x1E, CHR 0x1F, CHR 0x20])"

text \<open>The class \<^verbatim>\<open>\w\<close>: letters, digits and the underscore.\<close>

definition is_word :: "char \<Rightarrow> bool" where
  "is_word c = (c \<in> set (LOWERCASE @ UPPERCASE @ DIGITS @ ''_''))"

text \<open>\<^verbatim>\<open>k in s\<close> for strings: \<open>k\<close> occurs in \<open>s\<close> as a contiguous substring.\<close>

fun starts_with :: "string \<Rightarrow> string \<Rightarrow> bool" where
  "starts_with s [] = True"
| "starts_with [] (k # ks) = False"
| "starts_with (c # cs) (k # ks) = (c = k \<and> starts_with cs ks)"

fun str_in :: "string \<Rightarrow> string \<Rightarrow> bool" where
  "str_in k [] = (k = [])"
| "str_in k (c # cs) = (starts_with (c # cs) k \<or> str_in k cs)"

text \<open>\<^verbatim>\<open>sep.join(xs)\<close> for a list of strings.\<close>

fun join :: "string \<Rightarrow> string list \<Rightarrow> string" where
  "join sep [] = []"
| "join sep [x] = x"
| "join sep (x # y # ys) = x @ sep @ join sep (y # ys)"

text \<open>\<^verbatim>\<open>s.strip()\<close>.\<close>

definition strip :: "string \<Rightarrow> string" where
  "strip s = rev (dropWhile is_space (rev (dropWhile is_space s)))"

section \<open>Vocabulary\<close>

definition PLACE_ANCHORS :: "string list" where
  "PLACE_ANCHORS =
     [''Alexandria'', ''Del Ray'', ''Old Town'', ''Potomac Yard'', ''Eisenhower'', ''King St'',
      ''Duke St'', ''Van Dorn'', ''Seminary'', ''Beauregard'', ''Landmark'', ''Cameron'',
      ''Slaters'', ''Huntington'', ''Fairfax County'', ''Arlandria'', ''Rosemont'',
      ''North Ridge'', ''West End'']"

definition KEYWORDS :: "string list" where
  "KEYWORDS =
     [''fire'', ''smoke'', ''explosion'', ''gas leak'', ''evacuation'', ''hazmat'',
      ''shelter in place'',
      ''shooting'', ''shots fired'', ''stabbing'', ''assault'',
      ''accident'', ''crash'', ''pileup'', ''hit and run'',
      ''flood'', ''flash flood'', ''water main'', ''sinkhole'',
      ''power outage'', ''downed lines'', ''transformer'',
      ''road closed'', ''bridge closed'', ''police activity'', ''sirens'', ''helicopter'',
      ''medevac''] @ PLACE_ANCHORS"

section \<open>Regular expressions\<close>

text \<open>
  The fragment of \<^verbatim>\<open>re\<close> the patterns of the source use: a literal, \<^verbatim>\<open>\s+\<close>, \<^verbatim>\<open>\b\<close>,
  concatenation and alternation. \<open>rx_ends ic t r i\<close> lists the positions where a match of \<open>r\<close>
  that starts at position \<open>i\<close> of \<open>t\<close> can end; \<open>ic\<close> is the flag \<^verbatim>\<open>re.I\<close>.
  \<^verbatim>\<open>re.search\<close> succeeds when a match starts at some position.
\<close>

datatype regex = Lit string | Spaces | WordB | Seq regex regex | Alt regex regex

definition lit_eq :: "bool \<Rightarrow> string \<Rightarrow> string \<Rightarrow> bool" where
  "lit_eq ic a b = (if ic then lower a = lower b else a = b)"

definition word_before :: "string \<Rightarrow> nat \<Rightarrow> bool" where
  "word_before t i = (0 < i \<and> i \<le> length t \<and> is_word (t ! (i - 1)))"

definition word_after :: "string \<Rightarrow> nat \<Rightarrow> bool" where
  "word_after t i = (i < length t \<and> is_word (t ! i))"

fun rx_ends :: "bool \<Rightarrow> string \<Rightarrow> regex \<Rightarrow> nat \<Rightarrow> nat list" where
  "rx_ends ic t (Lit s) i =
     (if i + length s \<le> length t \<and> lit_eq ic (take (length s) (drop i t)) s
      then [i + length s] else [])"
| "rx_ends ic t Spaces i =
     map (\<lambda>n. i + n) [1..<Suc (length (takeWhile is_space (drop i t)))]"
| "rx_ends ic t WordB i = (if word_before t i \<noteq> word_after t i then [i] else [])"
| "rx_ends ic t (Seq r1 r2) i = concat (map (rx_ends ic t r2) (rx_ends ic t r1 i))"
| "rx_ends ic t (Alt r1 r2) i = rx_ends ic t r1 i @ rx_ends ic t r2 i"

definition re_search :: "bool \<Rightarrow> regex \<Rightarrow> string \<Rightarrow> bool" where
  "re_search ic r t = list_ex (\<lambda>i. rx_ends ic t r i \<noteq> []) [0..<Suc (length t)]"

text \<open>Building the patterns: words separated by \<^verbatim>\<open>\s+\<close>, a group of alternatives, and
  \<^verbatim>\<open>\b(...)\b\<close>.\<close>

fun phrase :: "string list \<Rightarrow> regex" where
  "phrase [] = Lit []"
| "phrase [w] = Lit w"
| "phrase (w # v # ws) = Seq (Lit w) (Seq Spaces (phrase (v # ws)))"

fun alts :: "regex list \<Rightarrow> regex" where
  "alts [] = Lit []"
| "alts [r] = r"
| "alts (r # q # rs) = Alt r (alts (q # rs))"

definition whole :: "regex \<Rightarrow> regex" where
  "whole r = Seq WordB (Seq r WordB)"

definition HIGH_PRIORITY_PATTERNS :: "regex list" where
  "HIGH_PRIORITY_PATTERNS =
     [whole (alts [phrase [''shooting''], phrase [''shots'', ''fired''], phrase [''stabbing''],
                   phrase [''explosion''], phrase [''hazmat''],
                   phrase [''shelter'', ''in'', ''place'']]),
      whole (alts [phrase [''major'', ''accident''], phrase [''multi-vehicle'', ''crash''],
                   phrase [''pileup'']]),
      whole (alts [phrase [''active'', ''police'', ''activity''], phrase [''police'', ''blocked''],
                   phrase [''crime'', ''scene'']]),
      whole (alts [phrase [''large'', ''fire''], phrase [''structure'', ''fire''],
                   phrase [''apartment'', ''fire'']])]"

definition ALEXANDRIA_PATTERN :: regex where
  "ALEXANDRIA_PATTERN = whole (Lit ''alexandria'')"

section \<open>Relevance filter\<close>

text \<open>\<^verbatim>\<open>sorted({k for k in kws if k.lower() in low})\<close>: the set as a list without duplicates,
  sorted in the order of strs.\<close>

definition contains_keywords :: "string \<Rightarrow> string list \<Rightarrow> string list" where
  "contains_keywords text kws =
     (let low = lower text in sort (remdups (filter (\<lambda>k. str_in (lower k) low) kws)))"

text \<open>\<^verbatim>\<open>any(re.search(p, low) for p in HIGH_PRIORITY_PATTERNS)\<close>.\<close>

definition high_priority :: "string \<Rightarrow> bool" where
  "high_priority text =
     (let low = lower text in list_ex (\<lambda>p. re_search False p low) HIGH_PRIORITY_PATTERNS)"

text \<open>
  \<^verbatim>\<open>score_post\<close>, with 1.5, 0.2 and 0.1 as 3/2, 1/5 and 1/10. The score and the number of
  comments are what the caller passes, objects of any type.
\<close>

definition score_post :: "string \<Rightarrow> string \<Rightarrow> json \<Rightarrow> json \<Rightarrow> error + rat" where
  "score_post title body score num_comments =
     (let text = title @ NL @ body;
          s0 = of_int (min 10 (int (length (contains_keywords text KEYWORDS)))) * (3 / 2)
      in case times_float (py_or score (JInt 0)) (1 / 5) of
           Inl e \<Rightarrow> Inl e
         | Inr a \<Rightarrow>
             (case times_float (py_or num_comments (JInt 0)) (1 / 10) of
                Inl e \<Rightarrow> Inl e
              | Inr b \<Rightarrow>
                  (let s1 = s0 + (a + b);
                       s2 = (if high_priority text then s1 + 10 else s1);
                       s3 = (if re_search True ALEXANDRIA_PATTERN text then s2 + 3 else s2)
                   in Inr (round2 s3))))"

section \<open>The relevance filter as the specification words it\<close>

text \<open>
  The matched keywords of a text: the vocabulary terms that occur in it as a substring,
  case-insensitively.
\<close>

definition spec_matched :: "string \<Rightarrow> string set" where
  "spec_matched text = {k \<in> set KEYWORDS. sublist (lower k) (lower text)}"

text \<open>
  The text contains \<open>w\<close> as a whole word, case-insensitively: an occurrence with no word
  character next to it on either side.
\<close>

definition spec_whole_word :: "string \<Rightarrow> string \<Rightarrow> bool" where
  "spec_whole_word w t =
     (\<exists>pre mid post. t = pre @ mid @ post \<and> lower mid = lower w \<and>
        (pre = [] \<or> \<not> is_word (last pre)) \<and> (post = [] \<or> \<not> is_word (hd post)))"

definition spec_score :: "string \<Rightarrow> string \<Rightarrow> int \<Rightarrow> int \<Rightarrow> rat" where
  "spec_score title body upvotes comments =
     (let text = title @ NL @ body
      in round2 (of_int (min 10 (int (card (spec_matched text)))) * (3 / 2)
                 + of_int upvotes * (1 / 5) + of_int comments * (1 / 10)
                 + (if high_priority text then 10 else 0)
                 + (if spec_whole_word ''alexandria'' text then 3 else 0)))"

section \<open>Properties of the relevance filter\<close>

subsection \<open>Strings and keywords\<close>

lemma is_word_lower_char: "is_word (lower_char c) = is_word c"
  by (auto simp add: is_word_def lower_char_def UPPERCASE_def LOWERCASE_def DIGITS_def)

lemma starts_with_prefix: "starts_with s k = prefix k s"
  by (induction s k rule: starts_with.induct) auto

lemma str_in_sublist: "str_in k s = sublist k s"
  by (induction s) (simp_all add: starts_with_prefix sublist_Cons_right)

lemma filter_zip_map:
  "map fst (filter (\<lambda>(k, l). P l) (zip ks (map f ks))) = filter (\<lambda>k. P (f k)) ks"
  by (induction ks) simp_all

lemma lower_KEYWORDS:
  "map lower KEYWORDS =
     [''fire'', ''smoke'', ''explosion'', ''gas leak'', ''evacuation'', ''hazmat'',
      ''shelter in place'',
      ''shooting'', ''shots fired'', ''stabbing'', ''assault'',
      ''accident'', ''crash'', ''pileup'', ''hit and run'',
      ''flood'', ''flash flood'', ''water main'', ''sinkhole'',
      ''power outage'', ''downed lines'', ''transformer'',
      ''road closed'', ''bridge closed'', ''police activity'', ''sirens'', ''helicopter'',
      ''medevac'',
      ''alexandria'', ''del ray'', ''old town'', ''potomac yard'', ''eisenhower'', ''king st'',
      ''duke st'', ''van dorn'', ''seminary'', ''beauregard'', ''landmark'', ''cameron'',
      ''slaters'', ''huntington'', ''fairfax county'', ''arlandria'', ''rosemont'',
      ''north ridge'', ''west end'']"
  by code_simp

text \<open>For evaluation: the lower-cased vocabulary is computed once.\<close>

lemma contains_keywords_code [code]:
  "contains_keywords text kws =
     (let low = lower text;
          lows = (if kws = KEYWORDS then
     [''fire'', ''smoke'', ''explosion'', ''gas leak'', ''evacuation'', ''hazmat'',
      ''shelter in place'',
      ''shooting'', ''shots fired'', ''stabbing'', ''assault'',
      ''accident'', ''crash'', ''pileup'', ''hit and run'',
      ''flood'', ''flash flood'', ''water main'', ''sinkhole'',
      ''power outage'', ''downed lines'', ''transformer'',
      ''road closed'', ''bridge closed'', ''police activity'', ''sirens'', ''helicopter'',
      ''medevac'',
      ''alexandria'', ''del ray'', ''old town'', ''potomac yard'', ''eisenhower'', ''king st'',
      ''duke st'', ''van dorn'', ''seminary'', ''beauregard'', ''landmark'', ''cameron'',
      ''slaters'', ''huntington'', ''fairfax county'', ''arlandria'', ''rosemont'',
      ''north ridge'', ''west end'']
                  else map lower kws)
      in sort (remdups (map fst (filter (\<lambda>(k, l). str_in l low) (zip kws lows)))))"
  unfolding lower_KEYWORDS [symmetric] Let_def contains_keywords_def
  by (simp add: filter_zip_map)

lemma length_contains_keywords:
  "length (contains_keywords text kws) = card {k \<in> set kws. sublist (lower k) (lower text)}"
proof -
  have "length (contains_keywords text kws)
      = card (set (filter (\<lambda>k. str_in (lower k) (lower text)) kws))"
    by (simp add: contains_keywords_def Let_def length_remdups_card_conv)
  then show ?thesis by (simp add: str_in_sublist)
qed

subsection \<open>Rounding\<close>

lemma round2_add_int: "round2 (x + of_int k) = round2 x + of_int k"
proof -
  have fl: "\<lfloor>(x + of_int k) * 100\<rfloor> = \<lfloor>x * 100\<rfloor> + 100 * k"
  proof -
    have "(x + of_int k) * 100 = x * 100 + of_int (100 * k)" by (simp add: algebra_simps)
    then show ?thesis by (simp only: floor_add_int)
  qed
  have ev: "even (\<lfloor>x * 100\<rfloor> + 100 * k) = even \<lfloor>x * 100\<rfloor>" by simp
  show ?thesis
    unfolding round2_def Let_def fl ev
    by (simp add: algebra_simps add_divide_distrib)
qed

subsection \<open>The whole-word pattern\<close>

lemma rx_ends_whole_lit:
  "rx_ends ic t (whole (Lit w)) i \<noteq> [] \<longleftrightarrow>
     word_before t i \<noteq> word_after t i \<and> i + length w \<le> length t \<and>
     lit_eq ic (take (length w) (drop i t)) w \<and>
     word_before t (i + length w) \<noteq> word_after t (i + length w)"
  by (auto simp add: whole_def split: if_splits)

lemma re_search_iff:
  "re_search ic r t \<longleftrightarrow> (\<exists>i\<le>length t. rx_ends ic t r i \<noteq> [])"
  by (auto simp add: re_search_def list_ex_iff less_Suc_eq_le simp del: upt_Suc)

lemma lower_hd_word:
  assumes "lower m = lower w" "w \<noteq> []" "is_word (hd w)"
  shows "m \<noteq> [] \<and> is_word (hd m)"
proof -
  from assms(1,2) have ne: "m \<noteq> []" by (auto simp add: lower_def)
  from assms(1) have "hd (lower m) = hd (lower w)" by simp
  with ne assms(2) have "lower_char (hd m) = lower_char (hd w)"
    by (simp add: lower_def hd_map)
  then have "is_word (lower_char (hd m)) = is_word (lower_char (hd w))" by simp
  with assms(3) ne show ?thesis by (simp add: is_word_lower_char)
qed

lemma lower_last_word:
  assumes "lower m = lower w" "w \<noteq> []" "is_word (last w)"
  shows "m \<noteq> [] \<and> is_word (last m)"
proof -
  from assms(1,2) have ne: "m \<noteq> []" by (auto simp add: lower_def)
  from assms(1) have "last (lower m) = last (lower w)" by simp
  with ne assms(2) have "lower_char (last m) = lower_char (last w)"
    by (simp add: lower_def last_map)
  then have "is_word (lower_char (last m)) = is_word (lower_char (last w))" by simp
  with assms(3) ne show ?thesis by (simp add: is_word_lower_char)
qed

lemma word_before_append:
  "word_before (pre @ rest) (length pre) = (pre \<noteq> [] \<and> is_word (last pre))"
  by (cases pre rule: rev_cases) (simp_all add: word_before_def nth_append)

lemma word_after_append:
  "word_after (pre @ rest) (length pre) = (rest \<noteq> [] \<and> is_word (hd rest))"
  by (cases rest) (simp_all add: word_after_def nth_append)

lemma whole_word_search:
  assumes w: "w \<noteq> []" "is_word (hd w)" "is_word (last w)"
  shows "re_search True (whole (Lit w)) t = spec_whole_word w t"
proof
  assume "re_search True (whole (Lit w)) t"
  then obtain i where i: "i \<le> length t" "word_before t i \<noteq> word_after t i"
      "i + length w \<le> length t" "lower (take (length w) (drop i t)) = lower w"
      "word_before t (i + length w) \<noteq> word_after t (i + length w)"
    by (auto simp add: re_search_iff rx_ends_whole_lit lit_eq_def)
  define pre where "pre = take i t"
  define mid where "mid = take (length w) (drop i t)"
  define post where "post = drop (length w) (drop i t)"
  have t: "t = pre @ mid @ post"
    by (simp only: pre_def mid_def post_def append_take_drop_id)
  have lp: "length pre = i" using i(1) by (simp add: pre_def)
  have lm: "length mid = length w" using i(3) by (simp add: mid_def)
  have m: "lower mid = lower w" using i(4) by (simp add: mid_def)
  from lower_hd_word [OF m w(1,2)] have hm: "mid \<noteq> []" "is_word (hd mid)" by simp_all
  from lower_last_word [OF m w(1,3)] have lmw: "is_word (last mid)" by simp
  have "word_after t i" using word_after_append [of pre "mid @ post"] hm t lp by simp
  with i(2) have "\<not> word_before t i" by simp
  then have b1: "pre = [] \<or> \<not> is_word (last pre)"
    using word_before_append [of pre "mid @ post"] t lp by auto
  have t2: "t = (pre @ mid) @ post" using t by simp
  have l2: "length (pre @ mid) = i + length w" using lp lm by simp
  have "word_before t (i + length w)"
    using word_before_append [of "pre @ mid" post] hm lmw t2 l2 by simp
  with i(5) have "\<not> word_after t (i + length w)" by simp
  then have b2: "post = [] \<or> \<not> is_word (hd post)"
    using word_after_append [of "pre @ mid" post] t2 l2 by auto
  from t m b1 b2 show "spec_whole_word w t" unfolding spec_whole_word_def by blast
next
  assume "spec_whole_word w t"
  then obtain pre mid post where s: "t = pre @ mid @ post" "lower mid = lower w"
      "pre = [] \<or> \<not> is_word (last pre)" "post = [] \<or> \<not> is_word (hd post)"
    unfolding spec_whole_word_def by blast
  from lower_hd_word [OF s(2) w(1,2)] have hm: "mid \<noteq> []" "is_word (hd mid)" by simp_all
  from lower_last_word [OF s(2) w(1,3)] have lmw: "is_word (last mid)" by simp
  have lm: "length mid = length w"
    using arg_cong [OF s(2), of length] by (simp add: lower_def)
  let ?i = "length pre"
  have a1: "\<not> word_before t ?i"
    using word_before_append [of pre "mid @ post"] s(1,3) by auto
  have a2: "word_after t ?i"
    using word_after_append [of pre "mid @ post"] s(1) hm by simp
  have t2: "t = (pre @ mid) @ post" using s(1) by simp
  have l2: "length (pre @ mid) = ?i + length w" using lm by simp
  have a3: "word_before t (?i + length w)"
    using word_before_append [of "pre @ mid" post] hm lmw t2 l2 by simp
  have a4: "\<not> word_after t (?i + length w)"
    using word_after_append [of "pre @ mid" post] s(4) t2 l2 by auto
  have a5: "take (length w) (drop ?i t) = mid" using s(1) lm by simp
  have a6: "?i + length w \<le> length t" using s(1) lm by simp
  have "rx_ends True t (whole (Lit w)) ?i \<noteq> []"
    unfolding rx_ends_whole_lit using a1 a2 a3 a4 a5 a6 s(2) by (simp add: lit_eq_def)
  moreover have "?i \<le> length t" using s(1) by simp
  ultimately show "re_search True (whole (Lit w)) t"
    unfolding re_search_iff by blast
qed

lemma alexandria_search:
  "re_search True ALEXANDRIA_PATTERN t = spec_whole_word ''alexandria'' t"
proof -
  have "is_word (hd ''alexandria'')" "is_word (last ''alexandria'')"
    by (simp_all add: is_word_def LOWERCASE_def)
  then show ?thesis
    unfolding ALEXANDRIA_PATTERN_def by (intro whole_word_search) simp_all
qed

subsection \<open>The score\<close>

lemma times_float_or_int:
  "times_float (py_or (JInt i) (JInt 0)) f = Inr (of_int i * f)"
  by (simp add: py_or_def)

lemma score_post_Inr:
  assumes "score_post title body sc nc = Inr x"
  obtains a b where
    "times_float (py_or sc (JInt 0)) (1 / 5) = Inr a"
    "times_float (py_or nc (JInt 0)) (1 / 10) = Inr b"
    "x = round2 (of_int (min 10 (int (length (contains_keywords (title @ NL @ body) KEYWORDS))))
                   * (3 / 2) + (a + b)
                 + (if high_priority (title @ NL @ body) then 10 else 0)
                 + (if re_search True ALEXANDRIA_PATTERN (title @ NL @ body) then 3 else 0))"
  using assms unfolding score_post_def Let_def
  by (auto split: sum.splits if_splits)

text \<open>
  C1. For every title, body, upvote score and comment count, the relevance score is
  min(10, number of matched keywords of title + newline + body) times 1.5, plus the upvote
  score times 0.2, plus the comment count times 0.1, plus 10 if the combined text is
  high-priority, plus 3 if it contains "alexandria" as a whole word case-insensitively,
  the total rounded to 2 decimal places.
\<close>

theorem score_post_formula:
  "score_post title body (JInt upvotes) (JInt comments)
     = Inr (spec_score title body upvotes comments)"
proof -
  have n: "length (contains_keywords (title @ NL @ body) KEYWORDS)
             = card (spec_matched (title @ NL @ body))"
    by (simp add: length_contains_keywords spec_matched_def)
  show ?thesis
    unfolding score_post_def spec_score_def Let_def times_float_or_int n alexandria_search
    by (simp add: algebra_simps)
qed

theorem score_post_formula_witness:
  "score_post ''Shooting in Alexandria'' ''x'' (JInt 5) (JInt 2)
     = Inr (spec_score ''Shooting in Alexandria'' ''x'' 5 2)
   \<and> spec_score ''Shooting in Alexandria'' ''x'' 5 2 = 86 / 5"
proof -
  have v: "score_post ''Shooting in Alexandria'' ''x'' (JInt 5) (JInt 2) = Inr (86 / 5)"
    by code_simp
  from score_post_formula [of "''Shooting in Alexandria''" "''x''" 5 2] v
  show ?thesis by simp
qed

text \<open>
  C6, as the specification states it: with both bonuses against neither, all else equal,
  the score would be 12 higher. The two bonuses are 10 and 3: here the difference is 13.
\<close>

theorem score_bonus_12_counterexample:
  "length (contains_keywords (''Crime scene in Alexandria'' @ NL @ '''') KEYWORDS)
     = length (contains_keywords (''Flood'' @ NL @ '''') KEYWORDS)
   \<and> high_priority (''Crime scene in Alexandria'' @ NL @ '''')
   \<and> re_search True ALEXANDRIA_PATTERN (''Crime scene in Alexandria'' @ NL @ '''')
   \<and> \<not> high_priority (''Flood'' @ NL @ '''')
   \<and> \<not> re_search True ALEXANDRIA_PATTERN (''Flood'' @ NL @ '''')
   \<and> score_post ''Crime scene in Alexandria'' '''' (JInt 4) (JInt 2) = Inr (31 / 2)
   \<and> score_post ''Flood'' '''' (JInt 4) (JInt 2) = Inr (5 / 2)
   \<and> (31 / 2 :: rat) - 5 / 2 = 13"
  by code_simp

text \<open>
  C6, amended: for two inputs of the score function equal in matched-keyword count,
  upvote score and comment count, one high-priority and containing the place name as a
  whole word, the other neither, the score of the first is exactly 13 higher.
\<close>

theorem score_bonus_13:
  assumes "score_post t1 b1 sc nc = Inr x" and "score_post t2 b2 sc nc = Inr y"
    and "length (contains_keywords (t1 @ NL @ b1) KEYWORDS)
           = length (contains_keywords (t2 @ NL @ b2) KEYWORDS)"
    and "high_priority (t1 @ NL @ b1)" and "spec_whole_word ''alexandria'' (t1 @ NL @ b1)"
    and "\<not> high_priority (t2 @ NL @ b2)"
    and "\<not> spec_whole_word ''alexandria'' (t2 @ NL @ b2)"
  shows "x = y + 13"
proof -
  from assms(1) obtain a b where x:
    "times_float (py_or sc (JInt 0)) (1 / 5) = Inr a"
    "times_float (py_or nc (JInt 0)) (1 / 10) = Inr b"
    "x = round2 (of_int (min 10 (int (length (contains_keywords (t1 @ NL @ b1) KEYWORDS))))
                   * (3 / 2) + (a + b)
                 + (if high_priority (t1 @ NL @ b1) then 10 else 0)
                 + (if re_search True ALEXANDRIA_PATTERN (t1 @ NL @ b1) then 3 else 0))"
    by (rule score_post_Inr)
  from assms(2) obtain a' b' where y:
    "times_float (py_or sc (JInt 0)) (1 / 5) = Inr a'"
    "times_float (py_or nc (JInt 0)) (1 / 10) = Inr b'"
    "y = round2 (of_int (min 10 (int (length (contains_keywords (t2 @ NL @ b2) KEYWORDS))))
                   * (3 / 2) + (a' + b')
                 + (if high_priority (t2 @ NL @ b2) then 10 else 0)
                 + (if re_search True ALEXANDRIA_PATTERN (t2 @ NL @ b2) then 3 else 0))"
    by (rule score_post_Inr)
  from x(1,2) y(1,2) have ab: "a' = a" "b' = b" by simp_all
  define base where
    "base = of_int (min 10 (int (length (contains_keywords (t2 @ NL @ b2) KEYWORDS))))
              * (3 / 2) + (a + b)"
  have y': "y = round2 base"
    using y(3) assms(6,7) by (simp add: ab base_def alexandria_search)
  have e: "round2 (base + of_int 13) = round2 base + of_int 13"
    by (rule round2_add_int)
  have "x = round2 (base + 13)"
    using x(3) assms(3,4,5) by (simp add: base_def alexandria_search ac_simps)
  with e y' show ?thesis by simp
qed

theorem score_bonus_13_witness:
  "score_post ''Crime scene in Alexandria'' '''' (JInt 4) (JInt 2) = Inr (31 / 2)
   \<and> score_post ''Flood'' '''' (JInt 4) (JInt 2) = Inr (5 / 2)
   \<and> (31 / 2 :: rat) = 5 / 2 + 13"
proof -
  have h1: "score_post ''Crime scene in Alexandria'' '''' (JInt 4) (JInt 2) = Inr (31 / 2)"
    by code_simp
  have h2: "score_post ''Flood'' '''' (JInt 4) (JInt 2) = Inr (5 / 2)"
    by code_simp
  have h3: "length (contains_keywords (''Crime scene in Alexandria'' @ NL @ '''') KEYWORDS)
              = length (contains_keywords (''Flood'' @ NL @ '''') KEYWORDS)"
    by code_simp
  have h4: "high_priority (''Crime scene in Alexandria'' @ NL @ '''')"
    by code_simp
  have h5: "spec_whole_word ''alexandria'' (''Crime scene in Alexandria'' @ NL @ '''')"
    unfolding alexandria_search [symmetric] by code_simp
  have h6: "\<not> high_priority (''Flood'' @ NL @ '''')"
    by code_simp
  have h7: "\<not> spec_whole_word ''alexandria'' (''Flood'' @ NL @ '''')"
    unfolding alexandria_search [symmetric] by code_simp
  from score_bonus_13 [OF h1 h2 h3 h4 h5 h6 h7] h1 h2 show ?thesis by simp
qed

section \<open>The fetcher\<close>

text \<open>
  The network is the sequence of outcomes of the HTTP requests, in the order they are made:
  a response with status 429; a failure (the request raises, the status is another error and
  \<^verbatim>\<open>raise_for_status\<close> raises, or the body is not JSON); or a success with the parsed body.
  \<open>get_json_from net sleep_ms tries i\<close> is the loop of \<^verbatim>\<open>get_json\<close> about to make request \<open>i\<close>
  with the counter at \<open>tries\<close>; it returns the payload and the index of the next request.
  A loop that never returns has the value \<open>None\<close>. After a success the source sleeps for
  \<^verbatim>\<open>jitter(sleep_ms)\<close> when \<open>sleep_ms\<close> is not 0; for a negative \<open>sleep_ms\<close> the duration is
  negative, \<^verbatim>\<open>time.sleep\<close> raises inside the \<^verbatim>\<open>try\<close>, and the handler runs. The waits and the
  log lines do not enter the result.
\<close>

datatype response = Status429 | Failure | Success json

partial_function (option) get_json_from ::
  "(nat \<Rightarrow> response) \<Rightarrow> int \<Rightarrow> nat \<Rightarrow> nat \<Rightarrow> (json \<times> nat) option" where
  "get_json_from net sleep_ms tries i =
     (case net i of
        Status429 \<Rightarrow> get_json_from net sleep_ms (tries + 1) (i + 1)
      | Failure \<Rightarrow>
          (if 3 < tries + 1 then Some (JObj [], i + 1)
           else get_json_from net sleep_ms (tries + 1) (i + 1))
      | Success j \<Rightarrow>
          (if sleep_ms < 0
           then (if 3 < tries + 1 then Some (JObj [], i + 1)
                 else get_json_from net sleep_ms (tries + 1) (i + 1))
           else Some (j, i + 1)))"

definition get_json :: "(nat \<Rightarrow> response) \<Rightarrow> int \<Rightarrow> nat \<Rightarrow> (json \<times> nat) option" where
  "get_json net sleep_ms i = get_json_from net sleep_ms 0 i"

text \<open>A response after which the loop goes round again, the counter being at \<open>tries\<close>.\<close>

definition retried :: "response \<Rightarrow> nat \<Rightarrow> bool" where
  "retried r tries = (r = Status429 \<or> (r = Failure \<and> tries < 3))"

text \<open>Two networks: three 429s, a failure, then successes; a 429, a failure, then successes.\<close>

definition throttled_net :: "nat \<Rightarrow> response" where
  "throttled_net i =
     (if i < 3 then Status429 else if i = 3 then Failure
      else Success (JObj [(''kind'', JStr ''Listing'')]))"

definition flaky_net :: "nat \<Rightarrow> response" where
  "flaky_net i =
     (if i = 0 then Status429 else if i = 1 then Failure
      else Success (JObj [(''kind'', JStr ''Listing'')]))"

section \<open>Properties of the fetcher\<close>

lemma get_json_from_skip:
  assumes "\<And>k. k < m \<Longrightarrow> retried (net (i + k)) (tries + k)"
  shows "get_json_from net sleep_ms tries i = get_json_from net sleep_ms (tries + m) (i + m)"
  using assms
proof (induction m arbitrary: tries i)
  case 0
  then show ?case by simp
next
  case (Suc m)
  from Suc.prems [of 0] have r: "retried (net i) tries" by simp
  have step: "get_json_from net sleep_ms tries i = get_json_from net sleep_ms (Suc tries) (Suc i)"
    using r by (subst get_json_from.simps) (auto simp add: retried_def)
  have "get_json_from net sleep_ms (Suc tries) (Suc i)
      = get_json_from net sleep_ms (Suc tries + m) (Suc i + m)"
  proof (rule Suc.IH)
    fix k assume "k < m"
    then have "retried (net (i + Suc k)) (tries + Suc k)" by (intro Suc.prems) simp
    then show "retried (net (Suc i + k)) (Suc tries + k)" by simp
  qed
  with step show ?case by simp
qed

lemma get_json_from_abandon:
  "net i = Failure \<Longrightarrow> 3 \<le> tries \<Longrightarrow>
     get_json_from net sleep_ms tries i = Some (JObj [], i + 1)"
  by (subst get_json_from.simps) simp

lemma get_json_from_success:
  "net i = Success j \<Longrightarrow> 0 \<le> sleep_ms \<Longrightarrow>
     get_json_from net sleep_ms tries i = Some (j, i + 1)"
  by (subst get_json_from.simps) simp

lemma get_json_from_Some_not_all_429:
  assumes "get_json_from net sleep_ms tries i = Some y"
  shows "\<exists>k. net (i + k) \<noteq> Status429"
proof (rule get_json_from.raw_induct
    [where P = "\<lambda>net sleep_ms tries i y. \<exists>k. net (i + k) \<noteq> Status429", OF _ assms],
    goal_cases)
  case (1 f net sleep_ms tries i y)
  show ?case
  proof (cases "net i = Status429")
    case True
    with 1(2) have "f net sleep_ms (tries + 1) (i + 1) = Some y" by simp
    then obtain k where "net (i + 1 + k) \<noteq> Status429" using 1(1) by blast
    then have "net (i + (k + 1)) \<noteq> Status429" by (simp add: ac_simps)
    then show ?thesis by blast
  next
    case False
    then have "net (i + 0) \<noteq> Status429" by simp
    then show ?thesis by blast
  qed
qed

lemma get_json_from_all_429:
  assumes "\<And>k. net (i + k) = Status429"
  shows "get_json_from net sleep_ms tries i = None"
proof (cases "get_json_from net sleep_ms tries i")
  case None
  then show ?thesis .
next
  case (Some y)
  from get_json_from_Some_not_all_429 [OF Some] assms show ?thesis by blast
qed

text \<open>
  C5, as the specification states it: 429 responses and other failures are counted apart,
  and only more than 3 failures make the call give up. In the source one counter counts
  both: after three 429 responses the first failure already ends the call with the empty
  result, although a success would have followed.
\<close>

theorem get_json_two_counters_counterexample:
  "throttled_net 0 = Status429 \<and> throttled_net 1 = Status429 \<and> throttled_net 2 = Status429
   \<and> throttled_net 3 = Failure
   \<and> throttled_net 4 = Success (JObj [(''kind'', JStr ''Listing'')])
   \<and> get_json throttled_net 600 0 = Some (JObj [], 4)"
  by (simp add: get_json_def get_json_from.simps throttled_net_def)

text \<open>
  C5, amended: a fetch call keeps one counter, incremented on every 429 response and on
  every other request failure. A 429 response never ends the call: a call that only ever
  gets 429 never returns. A failure that brings the counter above 3, that is a failure as
  the fourth or a later response of the call, 429 responses counted, ends the call with the
  empty result and no error. A success before that returns its payload.
\<close>

theorem get_json_single_counter:
  "((\<forall>k<m. retried (net (i + k)) k) \<and> net (i + m) = Failure \<and> 3 \<le> m
      \<longrightarrow> get_json net sleep_ms i = Some (JObj [], i + m + 1))
   \<and> ((\<forall>k<m. retried (net (i + k)) k) \<and> net (i + m) = Success j \<and> 0 \<le> sleep_ms
      \<longrightarrow> get_json net sleep_ms i = Some (j, i + m + 1))
   \<and> ((\<forall>k. net (i + k) = Status429) \<longrightarrow> get_json net sleep_ms i = None)"
proof (intro conjI impI)
  assume a: "(\<forall>k<m. retried (net (i + k)) k) \<and> net (i + m) = Failure \<and> 3 \<le> m"
  then have "get_json_from net sleep_ms 0 i = get_json_from net sleep_ms (0 + m) (i + m)"
    by (intro get_json_from_skip) simp
  with a show "get_json net sleep_ms i = Some (JObj [], i + m + 1)"
    by (simp add: get_json_def get_json_from_abandon)
next
  assume a: "(\<forall>k<m. retried (net (i + k)) k) \<and> net (i + m) = Success j \<and> 0 \<le> sleep_ms"
  then have "get_json_from net sleep_ms 0 i = get_json_from net sleep_ms (0 + m) (i + m)"
    by (intro get_json_from_skip) simp
  with a show "get_json net sleep_ms i = Some (j, i + m + 1)"
    by (simp add: get_json_def get_json_from_success)
next
  assume "\<forall>k. net (i + k) = Status429"
  then show "get_json net sleep_ms i = None"
    by (simp add: get_json_def get_json_from_all_429)
qed

theorem get_json_single_counter_witness:
  "get_json throttled_net 600 0 = Some (JObj [], 4)
   \<and> get_json flaky_net 600 0 = Some (JObj [(''kind'', JStr ''Listing'')], 3)
   \<and> get_json (\<lambda>i. Status429) 600 0 = None"
proof -
  have a: "(\<forall>k<3. retried (throttled_net (0 + k)) k) \<and> throttled_net (0 + 3) = Failure
             \<and> (3::nat) \<le> 3"
    by (simp add: throttled_net_def retried_def)
  have b: "(\<forall>k<2. retried (flaky_net (0 + k)) k)
             \<and> flaky_net (0 + 2) = Success (JObj [(''kind'', JStr ''Listing'')])
             \<and> (0::int) \<le> 600"
    by (simp add: flaky_net_def retried_def)
  have c: "\<forall>k. (\<lambda>i. Status429) (0 + k) = Status429" by simp
  from get_json_single_counter
    [where m = 3 and net = throttled_net and i = 0 and sleep_ms = 600] a
  have 1: "get_json throttled_net 600 0 = Some (JObj [], 4)" by simp
  from get_json_single_counter
    [where m = 2 and net = flaky_net and i = 0 and sleep_ms = 600
      and j = "JObj [(''kind'', JStr ''Listing'')]"] b
  have 2: "get_json flaky_net 600 0 = Some (JObj [(''kind'', JStr ''Listing'')], 3)" by simp
  from get_json_single_counter [where net = "\<lambda>i. Status429" and i = 0 and sleep_ms = 600] c
  have 3: "get_json (\<lambda>i. Status429) 600 0 = None" by blast
  from 1 2 3 show ?thesis by simp
qed

section \<open>The environment of the harvest\<close>

text \<open>An exception ends the computation: a result is \<open>Inl\<close> the error or \<open>Inr\<close> the value.\<close>

abbreviation ebind :: "error + 'a \<Rightarrow> ('a \<Rightarrow> error + 'b) \<Rightarrow> error + 'b" where
  "ebind m f \<equiv> (case m of Inl e \<Rightarrow> Inl e | Inr v \<Rightarrow> f v)"

text \<open>
  What the harvest takes from outside the repository:
  \<^item> \<open>payloads\<close>: what the successive calls of \<^verbatim>\<open>get_json\<close> return, in the order of the
    calls. The walker and the orchestrator are modelled over this sequence; they thread the
    number of calls made so far. The request (url, parameters, timeout, credentials) only
    reaches the network, so it does not appear.
  \<^item> \<open>float_of_str\<close>: \<^verbatim>\<open>float(s)\<close> for a str, \<open>None\<close> when it raises ValueError.
  \<^item> \<open>str_of\<close>: how an f-string formats an object that is not a str.
  \<^item> \<open>iso_of\<close>: \<^verbatim>\<open>to_iso\<close>, that is \<^verbatim>\<open>datetime.fromtimestamp(ts, tz=utc).isoformat()\<close>, or the
    error it raises for a timestamp out of range.
  \<^item> \<open>cutoff_of\<close>: \<^verbatim>\<open>(datetime.now(utc) - timedelta(hours=hours)).timestamp()\<close>, \<open>None\<close> when
    the date arithmetic raises OverflowError.
\<close>

record env =
  payloads :: "nat \<Rightarrow> json"
  float_of_str :: "string \<Rightarrow> rat option"
  str_of :: "json \<Rightarrow> string"
  iso_of :: "rat \<Rightarrow> error + string"
  cutoff_of :: "int \<Rightarrow> rat option"

text \<open>\<^verbatim>\<open>float(x)\<close>.\<close>

fun py_float :: "env \<Rightarrow> json \<Rightarrow> error + rat" where
  "py_float E (JInt i) = Inr (of_int i)"
| "py_float E (JFloat r) = Inr r"
| "py_float E (JBool b) = Inr (if b then 1 else 0)"
| "py_float E (JStr s) = (case float_of_str E s of None \<Rightarrow> Inl ValueError | Some r \<Rightarrow> Inr r)"
| "py_float E _ = Inl TypeError"

text \<open>\<^verbatim>\<open>for x in c\<close>: a list gives its elements, a str its characters, a dict its keys; any
  other object is not iterable.\<close>

fun py_iter :: "json \<Rightarrow> error + json list" where
  "py_iter (JArr xs) = Inr xs"
| "py_iter (JStr s) = Inr (map (\<lambda>c. JStr [c]) s)"
| "py_iter (JObj kvs) = Inr (map (\<lambda>kv. JStr (fst kv)) kvs)"
| "py_iter _ = Inl TypeError"

text \<open>\<^verbatim>\<open>len(c)\<close> is defined on a str, a list and a dict.\<close>

fun has_len :: "json \<Rightarrow> bool" where
  "has_len (JStr s) = True"
| "has_len (JArr xs) = True"
| "has_len (JObj kvs) = True"
| "has_len _ = False"

section \<open>The page walker\<close>

text \<open>
  The \<^verbatim>\<open>for\<close> loop over the children of one page either returns from
  \<^verbatim>\<open>list_new_posts\<close> (\<open>Return\<close>) or runs to its end (\<open>Next\<close>), with the items accumulated.
\<close>

datatype 'a flow = Return 'a | Next 'a

text \<open>\<^verbatim>\<open>p = ch.get("data", {}); created = float(p.get("created_utc", 0) or 0)\<close>.\<close>

definition post_created :: "env \<Rightarrow> json \<Rightarrow> error + (json \<times> rat)" where
  "post_created E ch =
     ebind (dict_get ch ''data'' (JObj [])) (\<lambda>p.
     ebind (dict_get p ''created_utc'' (JInt 0)) (\<lambda>c.
     ebind (py_float E (py_or c (JInt 0))) (\<lambda>created. Inr (p, created))))"

fun scan_page :: "env \<Rightarrow> rat \<Rightarrow> int \<Rightarrow> json list \<Rightarrow> json list \<Rightarrow> error + json list flow" where
  "scan_page E since_utc max_items out [] = Inr (Next out)"
| "scan_page E since_utc max_items out (ch # chs) =
     ebind (post_created E ch) (\<lambda>(p, created).
       if created < since_utc then Inr (Return out)
       else (let out' = out @ [p]
             in if max_items \<le> int (length out') then Inr (Return out')
                else scan_page E since_utc max_items out' chs))"

lemma scan_page_Next_length:
  "scan_page E since_utc max_items out chs = Inr (Next out') \<Longrightarrow>
     length out' = length out + length chs"
  by (induction chs arbitrary: out)
     (auto simp add: Let_def split: sum.splits prod.splits if_splits)

lemma truthy_iter_nonempty:
  "truthy c \<Longrightarrow> py_iter c = Inr chs \<Longrightarrow> chs \<noteq> []"
  by (cases c) auto

text \<open>
  \<open>list_new_posts_from E verbose since_utc max_items out n\<close> is the \<^verbatim>\<open>while\<close> loop of
  \<^verbatim>\<open>list_new_posts\<close> at its test, with \<open>out\<close> accumulated and \<open>n\<close> calls of \<^verbatim>\<open>get_json\<close>
  made. With \<open>verbose\<close> the source prints \<^verbatim>\<open>len(children)\<close>, which raises for an object
  without a length.
\<close>

function list_new_posts_from ::
  "env \<Rightarrow> bool \<Rightarrow> rat \<Rightarrow> int \<Rightarrow> json list \<Rightarrow> nat \<Rightarrow> error + (json list \<times> nat)" where
  "list_new_posts_from E verbose since_utc max_items out n =
     (if int (length out) < max_items then
        (let data = payloads E n in
         ebind (dict_get data ''data'' (JObj [])) (\<lambda>d.
         ebind (dict_get d ''children'' (JArr [])) (\<lambda>children.
           if verbose \<and> \<not> has_len children then Inl TypeError
           else if \<not> truthy children then Inr (out, n + 1)
           else ebind (py_iter children) (\<lambda>chs.
                ebind (scan_page E since_utc max_items out chs) (\<lambda>res.
                  case res of
                    Return out' \<Rightarrow> Inr (out', n + 1)
                  | Next out' \<Rightarrow>
                      ebind (dict_get data ''data'' (JObj [])) (\<lambda>d'.
                      ebind (dict_get d' ''after'' JNull) (\<lambda>after.
                        if \<not> truthy after then Inr (out', n + 1)
                        else list_new_posts_from E verbose since_utc max_items out' (n + 1))))))))
      else Inr (out, n))"
  by pat_completeness auto
termination
proof (relation "measure (\<lambda>(E, verbose, since_utc, max_items, out, n).
                            nat (max_items - int (length out)))", goal_cases)
  case 1
  show ?case by simp
next
  case (2 E verbose since_utc max_items out n data d children chs res out' d' after)
  from 2 have "length out' = length out + length chs" "chs \<noteq> []"
    by (auto dest: scan_page_Next_length truthy_iter_nonempty)
  with 2(1) show ?case by (cases chs) auto
qed

definition list_new_posts :: "env \<Rightarrow> bool \<Rightarrow> rat \<Rightarrow> int \<Rightarrow> nat \<Rightarrow> error + (json list \<times> nat)" where
  "list_new_posts E verbose since_utc max_items n =
     list_new_posts_from E verbose since_utc max_items [] n"

section \<open>Properties of the page walker\<close>

lemma ebind_InrE:
  assumes "ebind m f = Inr y"
  obtains v where "m = Inr v" "f v = Inr y"
  using assms by (cases m) simp_all

text \<open>The walker keeps the child \<open>ch\<close>, as the item \<open>p\<close>: it is not older than the cutoff.\<close>

definition kept :: "env \<Rightarrow> rat \<Rightarrow> json \<Rightarrow> json \<Rightarrow> bool" where
  "kept E since_utc ch p = (\<exists>t. post_created E ch = Inr (p, t) \<and> since_utc \<le> t)"

lemma scan_page_kept:
  assumes "list_all2 (kept E since_utc) pre ps"
    and "int (length out) + int (length pre) < max_items"
  shows "scan_page E since_utc max_items out (pre @ rest)
           = scan_page E since_utc max_items (out @ ps) rest"
  using assms
proof (induction pre ps arbitrary: out rule: list_all2_induct)
  case Nil
  then show ?case by simp
next
  case (Cons ch pre p ps)
  from Cons.hyps(1) obtain t where t: "post_created E ch = Inr (p, t)" "since_utc \<le> t"
    unfolding kept_def by blast
  from Cons.prems have len: "\<not> max_items \<le> int (length (out @ [p]))"
    "int (length (out @ [p])) + int (length pre) < max_items" by simp_all
  have "scan_page E since_utc max_items out ((ch # pre) @ rest)
          = scan_page E since_utc max_items (out @ [p]) (pre @ rest)"
    using t len(1) by (simp add: Let_def)
  also have "\<dots> = scan_page E since_utc max_items ((out @ [p]) @ ps) rest"
    by (rule Cons.IH [OF len(2)])
  finally show ?case by simp
qed

lemma scan_page_old:
  "post_created E ch = Inr (q, t) \<Longrightarrow> t < since_utc \<Longrightarrow>
     scan_page E since_utc max_items out (ch # rest) = Inr (Return out)"
  by simp

lemma list_new_posts_from_stop:
  assumes "dict_get (payloads E n) ''data'' (JObj []) = Inr d"
    and "dict_get d ''children'' (JArr []) = Inr (JArr (pre @ old # rest))"
    and "list_all2 (kept E since_utc) pre ps"
    and "post_created E old = Inr (q, t)" and "t < since_utc"
    and "int (length out) + int (length pre) < max_items"
  shows "list_new_posts_from E verbose since_utc max_items out n = Inr (out @ ps, n + 1)"
proof -
  have scan: "scan_page E since_utc max_items out (pre @ old # rest) = Inr (Return (out @ ps))"
    using scan_page_kept [OF assms(3,6)] scan_page_old [OF assms(4,5)] by simp
  from assms(6) have "int (length out) < max_items" by simp
  then show ?thesis
    using assms(1,2) scan
    by (subst list_new_posts_from.simps) (simp add: Let_def)
qed

lemma scan_page_cap:
  "scan_page E since_utc max_items out chs = Inr res \<Longrightarrow> int (length out) < max_items \<Longrightarrow>
     (case res of Return out' \<Rightarrow> int (length out') \<le> max_items
                | Next out' \<Rightarrow> int (length out') < max_items)"
  by (induction chs arbitrary: out)
     (auto simp add: Let_def split: sum.splits prod.splits if_splits)

lemma list_new_posts_from_cap:
  "list_new_posts_from E verbose since_utc max_items out n = Inr (out', n') \<Longrightarrow>
     int (length out') \<le> max max_items (int (length out))"
proof (induction E verbose since_utc max_items out n arbitrary: out' n'
    rule: list_new_posts_from.induct)
  case (1 E verbose since_utc max_items out n)
  show ?case
  proof (cases "int (length out) < max_items")
    case False
    with "1.prems" show ?thesis
      by (subst (asm) list_new_posts_from.simps) simp
  next
    case True
    note lt = this
    from "1.prems" True have body:
      "ebind (dict_get (payloads E n) ''data'' (JObj [])) (\<lambda>d.
         ebind (dict_get d ''children'' (JArr [])) (\<lambda>children.
           if verbose \<and> \<not> has_len children then Inl TypeError
           else if \<not> truthy children then Inr (out, n + 1)
           else ebind (py_iter children) (\<lambda>chs.
                ebind (scan_page E since_utc max_items out chs) (\<lambda>res.
                  case res of
                    Return out' \<Rightarrow> Inr (out', n + 1)
                  | Next out' \<Rightarrow>
                      ebind (dict_get (payloads E n) ''data'' (JObj [])) (\<lambda>d'.
                      ebind (dict_get d' ''after'' JNull) (\<lambda>after.
                        if \<not> truthy after then Inr (out', n + 1)
                        else list_new_posts_from E verbose since_utc max_items out' (n + 1)))))))
       = Inr (out', n')"
      by (subst (asm) list_new_posts_from.simps) (simp add: Let_def)
    from body obtain d where d: "dict_get (payloads E n) ''data'' (JObj []) = Inr d"
      and body2: "ebind (dict_get d ''children'' (JArr [])) (\<lambda>children.
           if verbose \<and> \<not> has_len children then Inl TypeError
           else if \<not> truthy children then Inr (out, n + 1)
           else ebind (py_iter children) (\<lambda>chs.
                ebind (scan_page E since_utc max_items out chs) (\<lambda>res.
                  case res of
                    Return out' \<Rightarrow> Inr (out', n + 1)
                  | Next out' \<Rightarrow>
                      ebind (dict_get (payloads E n) ''data'' (JObj [])) (\<lambda>d'.
                      ebind (dict_get d' ''after'' JNull) (\<lambda>after.
                        if \<not> truthy after then Inr (out', n + 1)
                        else list_new_posts_from E verbose since_utc max_items out' (n + 1))))))
       = Inr (out', n')"
      by (rule ebind_InrE)
    from body2 obtain children where c: "dict_get d ''children'' (JArr []) = Inr children"
      and body3: "(if verbose \<and> \<not> has_len children then Inl TypeError
           else if \<not> truthy children then Inr (out, n + 1)
           else ebind (py_iter children) (\<lambda>chs.
                ebind (scan_page E since_utc max_items out chs) (\<lambda>res.
                  case res of
                    Return out' \<Rightarrow> Inr (out', n + 1)
                  | Next out' \<Rightarrow>
                      ebind (dict_get (payloads E n) ''data'' (JObj [])) (\<lambda>d'.
                      ebind (dict_get d' ''after'' JNull) (\<lambda>after.
                        if \<not> truthy after then Inr (out', n + 1)
                        else list_new_posts_from E verbose since_utc max_items out' (n + 1))))))
       = Inr (out', n')"
      by (rule ebind_InrE)
    from body3 have v: "\<not> (verbose \<and> \<not> has_len children)"
      by (auto split: if_splits)
    show ?thesis
    proof (cases "truthy children")
      case False
      with body3 v lt show ?thesis by (auto split: if_splits)
    next
      case True
      with body3 v have body4: "ebind (py_iter children) (\<lambda>chs.
                ebind (scan_page E since_utc max_items out chs) (\<lambda>res.
                  case res of
                    Return out' \<Rightarrow> Inr (out', n + 1)
                  | Next out' \<Rightarrow>
                      ebind (dict_get (payloads E n) ''data'' (JObj [])) (\<lambda>d'.
                      ebind (dict_get d' ''after'' JNull) (\<lambda>after.
                        if \<not> truthy after then Inr (out', n + 1)
                        else list_new_posts_from E verbose since_utc max_items out' (n + 1)))))
          = Inr (out', n')"
        by (simp only: if_False not_True_eq_False)
      from body4 obtain chs where chs: "py_iter children = Inr chs"
        and body5: "ebind (scan_page E since_utc max_items out chs) (\<lambda>res.
                  case res of
                    Return out' \<Rightarrow> Inr (out', n + 1)
                  | Next out' \<Rightarrow>
                      ebind (dict_get (payloads E n) ''data'' (JObj [])) (\<lambda>d'.
                      ebind (dict_get d' ''after'' JNull) (\<lambda>after.
                        if \<not> truthy after then Inr (out', n + 1)
                        else list_new_posts_from E verbose since_utc max_items out' (n + 1))))
          = Inr (out', n')"
        by (rule ebind_InrE)
      from body5 obtain res where res: "scan_page E since_utc max_items out chs = Inr res"
        and fin: "(case res of
                    Return out' \<Rightarrow> Inr (out', n + 1)
                  | Next out' \<Rightarrow>
                      ebind (dict_get (payloads E n) ''data'' (JObj [])) (\<lambda>d'.
                      ebind (dict_get d' ''after'' JNull) (\<lambda>after.
                        if \<not> truthy after then Inr (out', n + 1)
                        else list_new_posts_from E verbose since_utc max_items out' (n + 1))))
                 = Inr (out', n')"
        by (rule ebind_InrE)
      from scan_page_cap [OF res lt] have cap:
        "(case res of Return out' \<Rightarrow> int (length out') \<le> max_items
                | Next out' \<Rightarrow> int (length out') < max_items)" .
      show ?thesis
      proof (cases res)
        case (Return o1)
        with fin cap show ?thesis by simp
      next
        case (Next o1)
        with fin d have "ebind (dict_get d ''after'' JNull) (\<lambda>after.
                        if \<not> truthy after then Inr (o1, n + 1)
                        else list_new_posts_from E verbose since_utc max_items o1 (n + 1))
                 = Inr (out', n')" by simp
        then obtain after where
          a: "dict_get d ''after'' JNull = Inr after"
          and fin2: "(if \<not> truthy after then Inr (o1, n + 1)
                      else list_new_posts_from E verbose since_utc max_items o1 (n + 1))
                     = Inr (out', n')"
          by (rule ebind_InrE)
        show ?thesis
        proof (cases "truthy after")
          case False
          with fin2 cap Next show ?thesis by simp
        next
          case ta: True
          with fin2 have "list_new_posts_from E verbose since_utc max_items o1 (n + 1)
              = Inr (out', n')" by simp
          from "1.IH" [OF lt refl d c _ _ chs res Next d a _ this] v True ta
          have "int (length out') \<le> max max_items (int (length o1))" by simp
          with cap Next show ?thesis by simp
        qed
      qed
    qed
  qed
qed

subsection \<open>Example feeds\<close>

definition test_env :: "(nat \<Rightarrow> json) \<Rightarrow> env" where
  "test_env ps =
     \<lparr>payloads = ps, float_of_str = (\<lambda>s. None), str_of = (\<lambda>v. ''''),
      iso_of = (\<lambda>t. Inr ''''), cutoff_of = (\<lambda>h. Some (1700000000 - 3600 * of_int h))\<rparr>"

definition item :: "string \<Rightarrow> json \<Rightarrow> string \<Rightarrow> json" where
  "item i created title = JObj [(''id'', JStr i), (''created_utc'', created), (''title'', JStr title)]"

definition child :: "json \<Rightarrow> json" where
  "child p = JObj [(''kind'', JStr ''t3''), (''data'', p)]"

definition listing :: "json list \<Rightarrow> json \<Rightarrow> json" where
  "listing ps after =
     JObj [(''kind'', JStr ''Listing''),
           (''data'', JObj [(''after'', after), (''children'', JArr (map child ps))])]"

definition scenario_page :: json where
  "scenario_page =
     listing [item ''a'' (JFloat (1700000000 + 18000)) ''first'',
              item ''b'' (JFloat (1700000000 + 10800)) ''second'',
              item ''c'' (JFloat (1700000000 - 3600)) ''third'',
              item ''d'' (JFloat (1700000000 + 7200)) ''fourth''] (JStr ''t3_d'')"

text \<open>
  C3. When the page walker encounters an item older than the cutoff, it stops at once and
  returns exactly the items accumulated so far: nothing of the rest of the page is
  considered (whatever it holds), and no further page is fetched (one call of the fetcher
  was made for this page, and none after it). This holds at every turn of the walker's
  loop, and so on its first page. The walker encounters the item \<open>old\<close> when
  the items before it on the page are kept and do not fill the cap. The instance below is
  the scenario of the specification: items at cutoff + 5 h, cutoff + 3 h, cutoff - 1 h (and
  a newer one after them) give exactly the first two.
\<close>

theorem walker_stops_at_old_item:
  assumes "dict_get (payloads E n) ''data'' (JObj []) = Inr d"
    and "dict_get d ''children'' (JArr []) = Inr (JArr (pre @ old # rest))"
    and "list_all2 (kept E since_utc) pre ps"
    and "post_created E old = Inr (q, t)" and "t < since_utc"
    and "int (length out) + int (length pre) < max_items"
  shows "list_new_posts_from E verbose since_utc max_items out n = Inr (out @ ps, n + 1)
       \<and> (out = [] \<longrightarrow>
            list_new_posts E verbose since_utc max_items n = Inr (ps, n + 1))"
  using list_new_posts_from_stop [OF assms] by (auto simp add: list_new_posts_def)

lemma kept_child_item:
  "since_utc \<le> t \<Longrightarrow> kept E since_utc (child (item i (JFloat t) s)) (item i (JFloat t) s)"
  by (auto simp add: kept_def post_created_def child_def item_def py_or_def)

theorem walker_stops_at_old_item_witness:
  "list_new_posts (test_env (\<lambda>n. scenario_page)) False 1700000000 300 0
     = Inr ([item ''a'' (JFloat (1700000000 + 18000)) ''first'',
             item ''b'' (JFloat (1700000000 + 10800)) ''second''], 1)"
proof -
  let ?E = "test_env (\<lambda>n. scenario_page)"
  let ?a = "item ''a'' (JFloat (1700000000 + 18000)) ''first''"
  let ?b = "item ''b'' (JFloat (1700000000 + 10800)) ''second''"
  let ?c = "item ''c'' (JFloat (1700000000 - 3600)) ''third''"
  let ?d = "item ''d'' (JFloat (1700000000 + 7200)) ''fourth''"
  have 1: "dict_get (payloads ?E 0) ''data'' (JObj [])
             = Inr (JObj [(''after'', JStr ''t3_d''),
                          (''children'', JArr (map child [?a, ?b, ?c, ?d]))])"
    by (simp add: test_env_def scenario_page_def listing_def)
  have 2: "dict_get (JObj [(''after'', JStr ''t3_d''),
                           (''children'', JArr (map child [?a, ?b, ?c, ?d]))])
              ''children'' (JArr [])
             = Inr (JArr ([child ?a, child ?b] @ child ?c # [child ?d]))"
    by simp
  have 3: "list_all2 (kept ?E 1700000000) [child ?a, child ?b] [?a, ?b]"
    by (simp add: kept_child_item)
  have 4: "post_created ?E (child ?c) = Inr (?c, 1700000000 - 3600)"
    by (simp add: post_created_def child_def item_def py_or_def)
  have 5: "(1700000000 - 3600 :: rat) < 1700000000" by simp
  have 6: "int (length ([] :: json list)) + int (length [child ?a, child ?b]) < 300" by simp
  from walker_stops_at_old_item [OF 1 2 3 4 5 6, of False]
  show ?thesis by simp
qed

text \<open>
  C8. For every source, cutoff and cap (a number of items, so not negative), and for any
  sequence of listing pages the fetch layer returns, the sequence of items the page walker
  returns has length at most the cap.
\<close>

theorem walker_cap:
  assumes "list_new_posts E verbose since_utc max_items n = Inr (out, n')"
    and "0 \<le> max_items"
  shows "int (length out) \<le> max_items"
  using list_new_posts_from_cap [of E verbose since_utc max_items "[]" n out n'] assms
  by (simp add: list_new_posts_def)

theorem walker_cap_witness:
  "list_new_posts (test_env (\<lambda>n. scenario_page)) False 1600000000 3 0
     = Inr ([item ''a'' (JFloat (1700000000 + 18000)) ''first'',
             item ''b'' (JFloat (1700000000 + 10800)) ''second'',
             item ''c'' (JFloat (1700000000 - 3600)) ''third''], 1)
   \<and> (0 :: int) \<le> 3
   \<and> int (length [item ''a'' (JFloat (1700000000 + 18000)) ''first'',
             item ''b'' (JFloat (1700000000 + 10800)) ''second'',
             item ''c'' (JFloat (1700000000 - 3600)) ''third'']) \<le> 3"
proof -
  have e: "list_new_posts (test_env (\<lambda>n. scenario_page)) False 1600000000 3 0
     = Inr ([item ''a'' (JFloat (1700000000 + 18000)) ''first'',
             item ''b'' (JFloat (1700000000 + 10800)) ''second'',
             item ''c'' (JFloat (1700000000 - 3600)) ''third''], 1)"
    by code_simp
  have c: "(0 :: int) \<le> 3" by simp
  from walker_cap [OF e c] e c show ?thesis by simp
qed

definition undated_page :: json where
  "undated_page =
     listing [item ''a'' (JFloat (1700000000 + 18000)) ''first'',
              JObj [(''id'', JStr ''b''), (''title'', JStr ''second'')],
              item ''c'' (JFloat (1700000000 + 7200)) ''third''] (JStr ''t3_c'')"

lemma post_created_undated:
  assumes "dict_get ch ''data'' (JObj []) = Inr (JObj kvs)"
    and "map_of kvs ''created_utc'' \<in> {None, Some JNull, Some (JInt 0), Some (JFloat 0)}"
  shows "post_created E ch = Inr (JObj kvs, 0)"
  using assms by (auto simp add: post_created_def py_or_def)

text \<open>
  C10. An item whose creation timestamp is absent, null or zero is treated as having
  timestamp 0; for a strictly positive cutoff the walker, encountering it, ends the
  pagination of the source at once: the item and everything after it are left out.
\<close>

theorem walker_stops_at_undated_item:
  assumes "dict_get (payloads E n) ''data'' (JObj []) = Inr d"
    and "dict_get d ''children'' (JArr []) = Inr (JArr (pre @ ch # rest))"
    and "list_all2 (kept E since_utc) pre ps"
    and "dict_get ch ''data'' (JObj []) = Inr (JObj kvs)"
    and "map_of kvs ''created_utc'' \<in> {None, Some JNull, Some (JInt 0), Some (JFloat 0)}"
    and "0 < since_utc"
    and "int (length out) + int (length pre) < max_items"
  shows "post_created E ch = Inr (JObj kvs, 0)
       \<and> list_new_posts_from E verbose since_utc max_items out n = Inr (out @ ps, n + 1)
       \<and> (out = [] \<longrightarrow>
            list_new_posts E verbose since_utc max_items n = Inr (ps, n + 1))"
proof -
  have c: "post_created E ch = Inr (JObj kvs, 0)"
    using assms(4,5) by (rule post_created_undated)
  from list_new_posts_from_stop [OF assms(1,2,3) c assms(6,7)] c show ?thesis
    by (auto simp add: list_new_posts_def)
qed

theorem walker_stops_at_undated_item_witness:
  "list_new_posts (test_env (\<lambda>n. undated_page)) False 1700000000 300 0
     = Inr ([item ''a'' (JFloat (1700000000 + 18000)) ''first''], 1)"
proof -
  let ?E = "test_env (\<lambda>n. undated_page)"
  let ?a = "item ''a'' (JFloat (1700000000 + 18000)) ''first''"
  let ?b = "JObj [(''id'', JStr ''b''), (''title'', JStr ''second'')]"
  let ?c = "item ''c'' (JFloat (1700000000 + 7200)) ''third''"
  have 1: "dict_get (payloads ?E 0) ''data'' (JObj [])
             = Inr (JObj [(''after'', JStr ''t3_c''),
                          (''children'', JArr (map child [?a, ?b, ?c]))])"
    by (simp add: test_env_def undated_page_def listing_def)
  have 2: "dict_get (JObj [(''after'', JStr ''t3_c''),
                           (''children'', JArr (map child [?a, ?b, ?c]))])
              ''children'' (JArr [])
             = Inr (JArr ([child ?a] @ child ?b # [child ?c]))"
    by simp
  have 3: "list_all2 (kept ?E 1700000000) [child ?a] [?a]"
    by (simp add: kept_child_item)
  have 4: "dict_get (child ?b) ''data'' (JObj [])
             = Inr (JObj [(''id'', JStr ''b''), (''title'', JStr ''second'')])"
    by (simp add: child_def)
  have 5: "map_of [(''id'', JStr ''b''), (''title'', JStr ''second'')] ''created_utc''
             \<in> {None, Some JNull, Some (JInt 0), Some (JFloat 0)}"
    by simp
  have 6: "(0 :: rat) < 1700000000" by simp
  have 7: "int (length ([] :: json list)) + int (length [child ?a]) < 300" by simp
  from walker_stops_at_undated_item [OF 1 2 3 4 5 6 7, of False]
  show ?thesis by simp
qed

section \<open>The comment fetcher\<close>

text \<open>
  The loop of \<^verbatim>\<open>list_comments\<close> over the children, inside its \<^verbatim>\<open>try\<close>: an exception ends
  the loop and the bodies collected so far are returned.
\<close>

fun collect_comments :: "int \<Rightarrow> json list \<Rightarrow> json list \<Rightarrow> json list" where
  "collect_comments limit out [] = out"
| "collect_comments limit out (it # its) =
     (case dict_get it ''kind'' JNull of
        Inl e \<Rightarrow> out
      | Inr kind \<Rightarrow>
          if kind \<noteq> JStr ''t1'' then collect_comments limit out its
          else (case ebind (dict_get it ''data'' (JObj [])) (\<lambda>d. dict_get d ''body'' (JStr '''')) of
                  Inl e \<Rightarrow> out
                | Inr b \<Rightarrow>
                    (let body = py_or b (JStr '''');
                         out' = (if truthy body then out @ [body] else out)
                     in if limit \<le> int (length out') then out'
                        else collect_comments limit out' its)))"

text \<open>
  \<^verbatim>\<open>list_comments\<close> makes one call of the fetcher. A payload that is not a list of at least
  two elements gives no comments; so does an exception on the way to the children.
\<close>

definition list_comments :: "env \<Rightarrow> int \<Rightarrow> nat \<Rightarrow> json list \<times> nat" where
  "list_comments E limit n =
     (case payloads E n of
        JArr (x # y # zs) \<Rightarrow>
          (case ebind (dict_get y ''data'' (JObj [])) (\<lambda>d.
                ebind (dict_get d ''children'' (JArr [])) py_iter) of
             Inl e \<Rightarrow> ([], n + 1)
           | Inr its \<Rightarrow> (collect_comments limit [] its, n + 1))
      | _ \<Rightarrow> ([], n + 1))"

section \<open>The orchestrator\<close>

text \<open>How an f-string formats an object: a str as itself.\<close>

definition fmt :: "env \<Rightarrow> json \<Rightarrow> string" where
  "fmt E v = (case v of JStr s \<Rightarrow> s | _ \<Rightarrow> str_of E v)"

text \<open>\<^verbatim>\<open>s + x\<close> for a str \<open>s\<close>: \<open>x\<close> must be a str.\<close>

fun str_plus :: "string \<Rightarrow> json \<Rightarrow> error + string" where
  "str_plus s (JStr t) = Inr (s @ t)"
| "str_plus s _ = Inl TypeError"

text \<open>The characters of an object that is a str.\<close>

fun str_value :: "json \<Rightarrow> string option" where
  "str_value (JStr s) = Some s"
| "str_value _ = None"

text \<open>\<^verbatim>\<open>sep.join(xs)\<close>: every element must be a str.\<close>

definition join_json :: "string \<Rightarrow> json list \<Rightarrow> error + string" where
  "join_json sep xs =
     (case those (map str_value xs) of None \<Rightarrow> Inl TypeError | Some ss \<Rightarrow> Inr (join sep ss))"

text \<open>\<^verbatim>\<open>(body + "\n" + "\n".join(cm)).strip()\<close>.\<close>

definition augment :: "json \<Rightarrow> json list \<Rightarrow> error + json" where
  "augment body cm =
     (case body of
        JStr b \<Rightarrow> ebind (join_json NL cm) (\<lambda>j. Inr (JStr (strip (b @ NL @ j))))
      | _ \<Rightarrow> Inl TypeError)"

text \<open>
  A row of the result, with the keys of the source's dict (prefixed: \<open>id\<close>, \<open>score\<close> and
  \<open>high_priority\<close> are taken).
\<close>

record row =
  r_id :: json
  r_created_utc :: json
  r_created_iso :: string
  r_subreddit :: json
  r_author :: json
  r_title :: json
  r_selftext :: json
  r_url :: json
  r_permalink :: string
  r_score :: json
  r_num_comments :: json
  r_comments_scanned :: int
  r_matched_keywords :: string
  r_high_priority :: bool
  r_eas_score :: rat

text \<open>
  The dict literal appended to \<open>rows\<close>, its entries evaluated in the order they are written.
  \<^verbatim>\<open>score_post\<close> uses \<open>title\<close> and \<open>body\<close> only inside an f-string, so it is given them
  formatted.
\<close>

definition make_row :: "env \<Rightarrow> json \<Rightarrow> json \<Rightarrow> json \<Rightarrow> error + row" where
  "make_row E p title body =
     ebind (dict_get p ''id'' JNull) (\<lambda>pid.
     ebind (dict_get p ''created_utc'' JNull) (\<lambda>created.
     ebind (if truthy created
            then ebind (ebind (dict_get p ''created_utc'' (JInt 0)) (py_float E)) (iso_of E)
            else Inr '''') (\<lambda>iso.
     ebind (dict_get p ''subreddit'' JNull) (\<lambda>subreddit.
     ebind (dict_get p ''author'' JNull) (\<lambda>author.
     ebind (dict_get p ''selftext'' (JStr '''')) (\<lambda>selftext.
     ebind (dict_get p ''url'' JNull) (\<lambda>url.
     ebind (ebind (dict_get p ''permalink'' (JStr '''')) (str_plus ''https://reddit.com''))
       (\<lambda>permalink.
     ebind (dict_get p ''score'' JNull) (\<lambda>score.
     ebind (dict_get p ''num_comments'' JNull) (\<lambda>num_comments.
     ebind (score_post (fmt E title) (fmt E body)
              (py_or score (JInt 0)) (py_or num_comments (JInt 0))) (\<lambda>eas.
       Inr \<lparr>r_id = pid, r_created_utc = created, r_created_iso = iso,
            r_subreddit = subreddit, r_author = author, r_title = title,
            r_selftext = py_or selftext (JStr ''''), r_url = url, r_permalink = permalink,
            r_score = py_or score (JInt 0), r_num_comments = py_or num_comments (JInt 0),
            r_comments_scanned = 0,
            r_matched_keywords =
              join '';'' (contains_keywords (fmt E title @ NL @ fmt E body) KEYWORDS),
            r_high_priority = high_priority (fmt E title @ NL @ fmt E body),
            r_eas_score = eas\<rparr>)))))))))))"

text \<open>
  The body of the loop over the posts of one source: the row of the post when its text
  matches, and the number of fetcher calls made.
\<close>

definition process_post ::
  "env \<Rightarrow> bool \<Rightarrow> int \<Rightarrow> json \<Rightarrow> nat \<Rightarrow> error + (row option \<times> nat)" where
  "process_post E include_comments comments_limit p n =
     ebind (dict_get p ''title'' (JStr '''')) (\<lambda>t.
     ebind (dict_get p ''selftext'' (JStr '''')) (\<lambda>s.
     ebind (if include_comments
            then (case list_comments E comments_limit n of
                    (cm, n') \<Rightarrow> ebind (augment (py_or s (JStr '''')) cm) (\<lambda>b. Inr (b, n')))
            else Inr (py_or s (JStr ''''), n)) (\<lambda>(body, n').
       if contains_keywords (fmt E (py_or t (JStr '''')) @ NL @ fmt E body) KEYWORDS \<noteq> []
       then ebind (make_row E p (py_or t (JStr '''')) body) (\<lambda>r. Inr (Some r, n'))
       else Inr (None, n'))))"

fun harvest_posts ::
  "env \<Rightarrow> bool \<Rightarrow> int \<Rightarrow> row list \<Rightarrow> nat \<Rightarrow> json list \<Rightarrow> error + (row list \<times> nat)" where
  "harvest_posts E include_comments comments_limit rows n [] = Inr (rows, n)"
| "harvest_posts E include_comments comments_limit rows n (p # ps) =
     ebind (process_post E include_comments comments_limit p n) (\<lambda>(r, n').
       harvest_posts E include_comments comments_limit
         (case r of None \<Rightarrow> rows | Some x \<Rightarrow> rows @ [x]) n' ps)"

fun harvest_subs ::
  "env \<Rightarrow> bool \<Rightarrow> rat \<Rightarrow> int \<Rightarrow> bool \<Rightarrow> int \<Rightarrow> row list \<Rightarrow> nat \<Rightarrow> string list
     \<Rightarrow> error + (row list \<times> nat)" where
  "harvest_subs E verbose since_utc max_per_sub include_comments comments_limit rows n [] =
     Inr (rows, n)"
| "harvest_subs E verbose since_utc max_per_sub include_comments comments_limit rows n
     (sub # subs) =
     ebind (list_new_posts E verbose since_utc max_per_sub n) (\<lambda>(posts, n').
     ebind (harvest_posts E include_comments comments_limit rows n' posts) (\<lambda>(rows', n'').
       harvest_subs E verbose since_utc max_per_sub include_comments comments_limit
         rows' n'' subs))"

text \<open>
  \<^verbatim>\<open>rows.sort(key=lambda r: (r["eas_score"], r.get("created_utc") or 0), reverse=True)\<close>.
  With \<^verbatim>\<open>reverse=True\<close> Python reverses the list, sorts it stably in ascending order of the
  key, and reverses the result. The keys are tuples, compared lexicographically: two
  timestamps are compared only when the scores are equal, and ordered only when they differ.
  They can be ordered when both are numbers (a bool counts as 0 or 1) or both are strs.
  The model sorts the lists in which every two rows can be ordered in this way; then every
  comparison the sort may make is defined. For any other list the result is \<open>Unmodelled\<close>
  (whether Python raises TypeError there depends on the pairs its sort compares).
\<close>

fun num_of :: "json \<Rightarrow> rat option" where
  "num_of (JInt i) = Some (of_int i)"
| "num_of (JFloat r) = Some r"
| "num_of (JBool b) = Some (if b then 1 else 0)"
| "num_of _ = None"

text \<open>\<^verbatim>\<open>r.get("created_utc") or 0\<close>.\<close>

definition created_of :: "row \<Rightarrow> json" where
  "created_of r = py_or (r_created_utc r) (JInt 0)"

definition orderable :: "row \<Rightarrow> row \<Rightarrow> bool" where
  "orderable r r' =
     (r_eas_score r \<noteq> r_eas_score r' \<or> created_of r = created_of r'
      \<or> (num_of (created_of r) \<noteq> None \<and> num_of (created_of r') \<noteq> None)
      \<or> (str_value (created_of r) \<noteq> None \<and> str_value (created_of r') \<noteq> None))"

text \<open>
  The key of a row, in an order that agrees with Python's on rows that can be ordered:
  the score, then the timestamp as a number, then the timestamp as a str.
\<close>

definition row_key :: "row \<Rightarrow> rat \<times> rat \<times> string" where
  "row_key r =
     (r_eas_score r,
      (case num_of (created_of r) of None \<Rightarrow> 0 | Some t \<Rightarrow> t),
      (case str_value (created_of r) of None \<Rightarrow> [] | Some s \<Rightarrow> s))"

definition sort_rows :: "row list \<Rightarrow> error + row list" where
  "sort_rows rows =
     (if list_all (\<lambda>r. list_all (orderable r) rows) rows
      then Inr (rev (sort_key row_key (rev rows)))
      else Inl Unmodelled)"

text \<open>
  \<^verbatim>\<open>harvest\<close>. The sources matter only through their number: the payloads are given by
  \<open>payloads\<close>. The counters \<open>scanned\<close> and \<open>matched\<close> and the log lines are not part of the
  result.
\<close>

definition harvest ::
  "env \<Rightarrow> string list \<Rightarrow> int \<Rightarrow> int \<Rightarrow> bool \<Rightarrow> int \<Rightarrow> bool \<Rightarrow> error + row list" where
  "harvest E subs hours max_per_sub include_comments comments_limit verbose =
     (case cutoff_of E hours of
        None \<Rightarrow> Inl OverflowError
      | Some since_utc \<Rightarrow>
          ebind (harvest_subs E verbose since_utc max_per_sub include_comments comments_limit
                   [] 0 subs) (\<lambda>(rows, n). sort_rows rows))"

section \<open>Properties of the orchestrator\<close>

subsection \<open>The final order\<close>

lemma rev_sorted_precedes:
  fixes f :: "'a \<Rightarrow> 'k::linorder"
  assumes "sorted (map f ys)" "i < length ys" "j < length ys"
    and "f (rev ys ! j) < f (rev ys ! i)"
  shows "i < j"
proof (rule ccontr)
  assume "\<not> i < j"
  then have le: "length ys - Suc i \<le> length ys - Suc j" using assms(2,3) by simp
  have "map f ys ! (length ys - Suc i) \<le> map f ys ! (length ys - Suc j)"
    using assms(1) le assms(3) by (intro sorted_nth_mono) simp_all
  then have "f (rev ys ! i) \<le> f (rev ys ! j)"
    using assms(2,3) by (simp add: rev_nth)
  with assms(4) show False by simp
qed

lemma sort_rows_Inr:
  "sort_rows xs = Inr ys \<Longrightarrow> ys = rev (sort_key row_key (rev xs))"
  by (simp add: sort_rows_def split: if_splits)

lemma sort_rows_precedes:
  assumes "sort_rows xs = Inr ys" "i < length ys" "j < length ys"
    and "row_key (ys ! j) < row_key (ys ! i)"
  shows "i < j"
proof -
  let ?zs = "sort_key row_key (rev xs)"
  from assms(1) have ys: "ys = rev ?zs" by (rule sort_rows_Inr)
  have "sorted (map row_key ?zs)" by simp
  moreover from assms(2,3) ys have "i < length ?zs" "j < length ?zs" by simp_all
  moreover from assms(4) ys have "row_key (rev ?zs ! j) < row_key (rev ?zs ! i)" by simp
  ultimately show ?thesis by (rule rev_sorted_precedes)
qed

lemma sort_rows_stable:
  assumes "sort_rows xs = Inr ys"
  shows "filter (\<lambda>r. row_key r = k) ys = filter (\<lambda>r. row_key r = k) xs"
proof -
  from assms have "ys = rev (sort_key row_key (rev xs))" by (rule sort_rows_Inr)
  then have "filter (\<lambda>r. row_key r = k) ys
      = rev (filter (\<lambda>r. row_key r = k) (sort_key row_key (rev xs)))"
    by (simp add: rev_filter)
  also have "\<dots> = rev (filter (\<lambda>r. row_key r = k) (rev xs))"
    by (simp only: sort_key_stable)
  also have "\<dots> = filter (\<lambda>r. row_key r = k) xs"
    by (simp add: rev_filter)
  finally show ?thesis .
qed

lemma sort_rows_mset: "sort_rows xs = Inr ys \<Longrightarrow> mset ys = mset xs"
  by (auto dest: sort_rows_Inr)

lemma harvest_Inr:
  assumes "harvest E subs hours max_per_sub inc climit verbose = Inr rows"
  obtains since_utc unsorted n where
    "cutoff_of E hours = Some since_utc"
    "harvest_subs E verbose since_utc max_per_sub inc climit [] 0 subs = Inr (unsorted, n)"
    "sort_rows unsorted = Inr rows"
proof -
  from assms obtain since_utc where c: "cutoff_of E hours = Some since_utc"
    by (auto simp add: harvest_def split: option.splits)
  with assms have "ebind (harvest_subs E verbose since_utc max_per_sub inc climit [] 0 subs)
      (\<lambda>(rows, n). sort_rows rows) = Inr rows"
    by (simp add: harvest_def)
  then obtain v where v: "harvest_subs E verbose since_utc max_per_sub inc climit [] 0 subs = Inr v"
    "(case v of (rows, n) \<Rightarrow> sort_rows rows) = Inr rows"
    by (rule ebind_InrE)
  obtain unsorted n where "v = (unsorted, n)" by (cases v)
  with v c that show ?thesis by simp
qed

text \<open>Four posts: one high-priority, three of equal score, two of them of equal age.\<close>

definition ranked_page :: json where
  "ranked_page =
     listing [JObj [(''id'', JStr ''p1''), (''created_utc'', JInt 1700003000),
                    (''title'', JStr ''Fire''), (''permalink'', JStr ''/r/x/p1'')],
              JObj [(''id'', JStr ''p2''), (''created_utc'', JInt 1700002000),
                    (''title'', JStr ''Smoke''), (''permalink'', JStr ''/r/x/p2'')],
              JObj [(''id'', JStr ''p3''), (''created_utc'', JInt 1700001000),
                    (''title'', JStr ''Hazmat''), (''permalink'', JStr ''/r/x/p3'')],
              JObj [(''id'', JStr ''p4''), (''created_utc'', JInt 1700002000),
                    (''title'', JStr ''Flood''), (''permalink'', JStr ''/r/x/p4'')]] JNull"


text \<open>
  C2. In the sequence of rows harvest returns: a row with a strictly greater score precedes
  a row with a smaller one; of two rows with equal scores the one with the later creation
  timestamp (a number; 0 when the field is absent or null) precedes the other; rows equal
  on both keys keep the order in which they were encountered.
\<close>

theorem harvest_sorted:
  assumes "harvest E subs hours max_per_sub include_comments comments_limit verbose = Inr rows"
  shows "(\<forall>i<length rows. \<forall>j<length rows.
            r_eas_score (rows ! j) < r_eas_score (rows ! i) \<longrightarrow> i < j)
       \<and> (\<forall>i<length rows. \<forall>j<length rows. \<forall>a b.
            r_eas_score (rows ! j) = r_eas_score (rows ! i)
            \<and> num_of (created_of (rows ! i)) = Some a
            \<and> num_of (created_of (rows ! j)) = Some b \<and> b < a \<longrightarrow> i < j)
       \<and> (\<exists>since_utc unsorted n.
            cutoff_of E hours = Some since_utc
            \<and> harvest_subs E verbose since_utc max_per_sub include_comments comments_limit
                 [] 0 subs = Inr (unsorted, n)
            \<and> (\<forall>k. filter (\<lambda>r. row_key r = k) rows = filter (\<lambda>r. row_key r = k) unsorted))"
proof -
  from assms obtain since_utc unsorted n where h:
    "cutoff_of E hours = Some since_utc"
    "harvest_subs E verbose since_utc max_per_sub include_comments comments_limit [] 0 subs
       = Inr (unsorted, n)"
    "sort_rows unsorted = Inr rows"
    by (rule harvest_Inr)
  have 1: "i < j" if "i < length rows" "j < length rows"
    "r_eas_score (rows ! j) < r_eas_score (rows ! i)" for i j
    using h(3) that(1,2)
  proof (rule sort_rows_precedes)
    from that(3) show "row_key (rows ! j) < row_key (rows ! i)"
      by (simp add: row_key_def less_prod_def)
  qed
  have 2: "i < j" if "i < length rows" "j < length rows"
    "r_eas_score (rows ! j) = r_eas_score (rows ! i)"
    "num_of (created_of (rows ! i)) = Some a"
    "num_of (created_of (rows ! j)) = Some b" "b < a" for i j a b
    using h(3) that(1,2)
  proof (rule sort_rows_precedes)
    from that(3,4,5,6) show "row_key (rows ! j) < row_key (rows ! i)"
      by (simp add: row_key_def less_prod_def)
  qed
  have 3: "\<forall>k. filter (\<lambda>r. row_key r = k) rows = filter (\<lambda>r. row_key r = k) unsorted"
    using sort_rows_stable [OF h(3)] by simp
  from 1 2 3 h(1,2) show ?thesis by blast
qed

theorem harvest_sorted_witness:
  "\<exists>rows. harvest (test_env (\<lambda>n. ranked_page)) [''AlexandriaVA''] 48 300 False 20 False
              = Inr rows
     \<and> map (\<lambda>r. (r_id r, r_eas_score r, created_of r)) rows
         = [(JStr ''p3'', 23 / 2, JInt 1700001000), (JStr ''p1'', 3 / 2, JInt 1700003000),
            (JStr ''p2'', 3 / 2, JInt 1700002000), (JStr ''p4'', 3 / 2, JInt 1700002000)]
     \<and> (\<forall>i<length rows. \<forall>j<length rows.
            r_eas_score (rows ! j) < r_eas_score (rows ! i) \<longrightarrow> i < j)
     \<and> (\<forall>i<length rows. \<forall>j<length rows. \<forall>a b.
            r_eas_score (rows ! j) = r_eas_score (rows ! i)
            \<and> num_of (created_of (rows ! i)) = Some a
            \<and> num_of (created_of (rows ! j)) = Some b \<and> b < a \<longrightarrow> i < j)"
proof -
  have "map_sum id (map (\<lambda>r. (r_id r, r_eas_score r, created_of r)))
          (harvest (test_env (\<lambda>n. ranked_page)) [''AlexandriaVA''] 48 300 False 20 False)
        = Inr [(JStr ''p3'', 23 / 2, JInt 1700001000), (JStr ''p1'', 3 / 2, JInt 1700003000),
               (JStr ''p2'', 3 / 2, JInt 1700002000), (JStr ''p4'', 3 / 2, JInt 1700002000)]"
    by code_simp
  then obtain rows where
    e: "harvest (test_env (\<lambda>n. ranked_page)) [''AlexandriaVA''] 48 300 False 20 False = Inr rows"
    and m: "map (\<lambda>r. (r_id r, r_eas_score r, created_of r)) rows
         = [(JStr ''p3'', 23 / 2, JInt 1700001000), (JStr ''p1'', 3 / 2, JInt 1700003000),
            (JStr ''p2'', 3 / 2, JInt 1700002000), (JStr ''p4'', 3 / 2, JInt 1700002000)]"
    by (cases "harvest (test_env (\<lambda>n. ranked_page)) [''AlexandriaVA''] 48 300 False 20 False")
       simp_all
  note o1 = harvest_sorted [OF e, THEN conjunct1]
  note o2 = harvest_sorted [OF e, THEN conjunct2, THEN conjunct1]
  show ?thesis
    by (rule exI [of _ rows]) (intro conjI e m o1 o2)
qed

subsection \<open>Where the rows come from\<close>

lemma make_row_Inr:
  assumes "make_row E p title body = Inr r"
  shows "r_title r = title"
    and "\<exists>s. dict_get p ''selftext'' (JStr '''') = Inr s \<and> r_selftext r = py_or s (JStr '''')"
    and "r_matched_keywords r
           = join '';'' (contains_keywords (fmt E title @ NL @ fmt E body) KEYWORDS)"
    and "r_high_priority r = high_priority (fmt E title @ NL @ fmt E body)"
    and "score_post (fmt E title) (fmt E body) (r_score r) (r_num_comments r)
           = Inr (r_eas_score r)"
  using assms unfolding make_row_def
  by (auto elim!: ebind_InrE)

text \<open>The row \<open>r\<close> is the row of some post, as the loop body builds it.\<close>

definition emitted :: "env \<Rightarrow> bool \<Rightarrow> int \<Rightarrow> row \<Rightarrow> bool" where
  "emitted E include_comments comments_limit r =
     (\<exists>p n n'. process_post E include_comments comments_limit p n = Inr (Some r, n'))"

lemma harvest_posts_emitted:
  assumes "harvest_posts E inc climit rows n ps = Inr (rows', n')"
  shows "\<exists>new. rows' = rows @ new \<and> (\<forall>r\<in>set new. emitted E inc climit r)"
  using assms
proof (induction ps arbitrary: rows n)
  case Nil
  then show ?case by simp
next
  case (Cons p ps)
  from Cons.prems obtain v where v: "process_post E inc climit p n = Inr v"
    and rest: "(case v of (r, n1) \<Rightarrow>
       harvest_posts E inc climit (case r of None \<Rightarrow> rows | Some x \<Rightarrow> rows @ [x]) n1 ps)
      = Inr (rows', n')"
    by (auto elim: ebind_InrE)
  obtain ro n1 where vv: "v = (ro, n1)" by (cases v)
  with rest have rest': "harvest_posts E inc climit
      (case ro of None \<Rightarrow> rows | Some x \<Rightarrow> rows @ [x]) n1 ps = Inr (rows', n')" by simp
  from Cons.IH [OF rest'] obtain new where new:
    "rows' = (case ro of None \<Rightarrow> rows | Some x \<Rightarrow> rows @ [x]) @ new"
    "\<forall>r\<in>set new. emitted E inc climit r" by blast
  show ?case
  proof (cases ro)
    case None
    with new show ?thesis by auto
  next
    case (Some x)
    with v vv have "emitted E inc climit x" unfolding emitted_def by blast
    with new Some have "rows' = rows @ (x # new)" "\<forall>r\<in>set (x # new). emitted E inc climit r"
      by simp_all
    then show ?thesis by blast
  qed
qed

lemma harvest_subs_emitted:
  assumes "harvest_subs E verbose since_utc cap inc climit rows n subs = Inr (rows', n')"
  shows "\<exists>new. rows' = rows @ new \<and> (\<forall>r\<in>set new. emitted E inc climit r)"
  using assms
proof (induction subs arbitrary: rows n)
  case Nil
  then show ?case by simp
next
  case (Cons sub subs)
  from Cons.prems obtain v where v: "list_new_posts E verbose since_utc cap n = Inr v"
    and r1: "(case v of (posts, n1) \<Rightarrow>
        ebind (harvest_posts E inc climit rows n1 posts) (\<lambda>(rows1, n2).
          harvest_subs E verbose since_utc cap inc climit rows1 n2 subs)) = Inr (rows', n')"
    by (auto elim: ebind_InrE)
  obtain posts n1 where vv: "v = (posts, n1)" by (cases v)
  with r1 obtain w where w: "harvest_posts E inc climit rows n1 posts = Inr w"
    and r2: "(case w of (rows1, n2) \<Rightarrow>
          harvest_subs E verbose since_utc cap inc climit rows1 n2 subs) = Inr (rows', n')"
    by (auto elim: ebind_InrE)
  obtain rows1 n2 where ww: "w = (rows1, n2)" by (cases w)
  with r2 have r3: "harvest_subs E verbose since_utc cap inc climit rows1 n2 subs
      = Inr (rows', n')" by simp
  from harvest_posts_emitted [OF w [unfolded ww]] obtain new1 where
    n1: "rows1 = rows @ new1" "\<forall>r\<in>set new1. emitted E inc climit r" by blast
  from Cons.IH [OF r3] obtain new2 where
    n2: "rows' = rows1 @ new2" "\<forall>r\<in>set new2. emitted E inc climit r" by blast
  from n1 n2 have "rows' = rows @ (new1 @ new2)"
    "\<forall>r\<in>set (new1 @ new2). emitted E inc climit r" by auto
  then show ?case by blast
qed

lemma harvest_emitted:
  assumes "harvest E subs hours cap inc climit verbose = Inr rows" "r \<in> set rows"
  shows "emitted E inc climit r"
proof -
  from assms(1) obtain since_utc unsorted n where h:
    "harvest_subs E verbose since_utc cap inc climit [] 0 subs = Inr (unsorted, n)"
    "sort_rows unsorted = Inr rows"
    by (rule harvest_Inr)
  from sort_rows_mset [OF h(2)] have "set rows = set unsorted" by (rule mset_eq_setD)
  moreover from harvest_subs_emitted [OF h(1)]
  have "\<forall>r\<in>set unsorted. emitted E inc climit r" by simp
  ultimately show ?thesis using assms(2) by simp
qed

lemma those_str_value:
  "those (map str_value xs) = Some ss \<Longrightarrow> xs = map JStr ss"
proof (induction xs arbitrary: ss)
  case Nil
  then show ?case by simp
next
  case (Cons x xs)
  then show ?case by (cases x) (auto split: option.splits)
qed

lemma augment_Inr:
  assumes "augment b0 cm = Inr b"
  obtains body0 cms where "b0 = JStr body0" "cm = map JStr cms"
    "b = JStr (strip (body0 @ NL @ join NL cms))"
proof -
  from assms obtain body0 where b0: "b0 = JStr body0"
    by (cases b0) (simp_all add: augment_def)
  with assms obtain j where j: "join_json NL cm = Inr j" "b = JStr (strip (body0 @ NL @ j))"
    by (auto simp add: augment_def elim: ebind_InrE)
  from j(1) obtain cms where "those (map str_value cm) = Some cms" "j = join NL cms"
    by (auto simp add: join_json_def split: option.splits)
  with those_str_value [of cm cms] b0 j(2) that show ?thesis by simp
qed

lemma process_post_Some:
  assumes "process_post E inc climit p n = Inr (Some r, n')"
  obtains t s body where
    "dict_get p ''title'' (JStr '''') = Inr t"
    "dict_get p ''selftext'' (JStr '''') = Inr s"
    "(if inc then (case list_comments E climit n of
                    (cm, n1) \<Rightarrow> ebind (augment (py_or s (JStr '''')) cm) (\<lambda>b. Inr (b, n1)))
      else Inr (py_or s (JStr ''''), n)) = Inr (body, n')"
    "contains_keywords (fmt E (py_or t (JStr '''')) @ NL @ fmt E body) KEYWORDS \<noteq> []"
    "make_row E p (py_or t (JStr '''')) body = Inr r"
proof -
  from assms obtain t where t: "dict_get p ''title'' (JStr '''') = Inr t"
    and r1: "ebind (dict_get p ''selftext'' (JStr '''')) (\<lambda>s.
     ebind (if inc
            then (case list_comments E climit n of
                    (cm, n') \<Rightarrow> ebind (augment (py_or s (JStr '''')) cm) (\<lambda>b. Inr (b, n')))
            else Inr (py_or s (JStr ''''), n)) (\<lambda>(body, n').
       if contains_keywords (fmt E (py_or t (JStr '''')) @ NL @ fmt E body) KEYWORDS \<noteq> []
       then ebind (make_row E p (py_or t (JStr '''')) body) (\<lambda>r. Inr (Some r, n'))
       else Inr (None, n'))) = Inr (Some r, n')"
    unfolding process_post_def by (rule ebind_InrE)
  from r1 obtain s where s: "dict_get p ''selftext'' (JStr '''') = Inr s"
    and r2: "ebind (if inc
            then (case list_comments E climit n of
                    (cm, n') \<Rightarrow> ebind (augment (py_or s (JStr '''')) cm) (\<lambda>b. Inr (b, n')))
            else Inr (py_or s (JStr ''''), n)) (\<lambda>(body, n').
       if contains_keywords (fmt E (py_or t (JStr '''')) @ NL @ fmt E body) KEYWORDS \<noteq> []
       then ebind (make_row E p (py_or t (JStr '''')) body) (\<lambda>r. Inr (Some r, n'))
       else Inr (None, n')) = Inr (Some r, n')"
    by (rule ebind_InrE)
  from r2 obtain v where v: "(if inc
            then (case list_comments E climit n of
                    (cm, n') \<Rightarrow> ebind (augment (py_or s (JStr '''')) cm) (\<lambda>b. Inr (b, n')))
            else Inr (py_or s (JStr ''''), n)) = Inr v"
    and r3: "(case v of (body, n1) \<Rightarrow>
       if contains_keywords (fmt E (py_or t (JStr '''')) @ NL @ fmt E body) KEYWORDS \<noteq> []
       then ebind (make_row E p (py_or t (JStr '''')) body) (\<lambda>r. Inr (Some r, n1))
       else Inr (None, n1)) = Inr (Some r, n')"
    by (rule ebind_InrE)
  obtain body n1 where vv: "v = (body, n1)" by (cases v)
  from r3 vv have k: "contains_keywords (fmt E (py_or t (JStr '''')) @ NL @ fmt E body) KEYWORDS \<noteq> []"
    and r4: "ebind (make_row E p (py_or t (JStr '''')) body) (\<lambda>r. Inr (Some r, n1))
             = Inr (Some r, n')"
    by (auto split: if_splits)
  from r4 have "make_row E p (py_or t (JStr '''')) body = Inr r" "n1 = n'"
    by (auto elim: ebind_InrE)
  with t s v vv k that show ?thesis by simp
qed

subsection \<open>Comments\<close>

text \<open>
  With comments included, the loop body makes one call of the fetcher for each item the
  walker returned. The items of the sources in turn, each with the index of the call that
  fetches its comments:
\<close>

fun walk_subs_commented ::
  "env \<Rightarrow> bool \<Rightarrow> rat \<Rightarrow> int \<Rightarrow> nat \<Rightarrow> string list \<Rightarrow> error + (json \<times> nat) list" where
  "walk_subs_commented E verbose since_utc max_per_sub n [] = Inr []"
| "walk_subs_commented E verbose since_utc max_per_sub n (sub # subs) =
     ebind (list_new_posts E verbose since_utc max_per_sub n) (\<lambda>(posts, n').
     ebind (walk_subs_commented E verbose since_utc max_per_sub (n' + length posts) subs)
       (\<lambda>rest. Inr (zip posts [n' ..< n' + length posts] @ rest)))"

text \<open>
  The text of the title of an item; its original body, \<^verbatim>\<open>p.get("selftext","") or ""\<close>, when
  that is a str; the bodies of the comments that call \<open>n\<close> of the fetcher gives, when they
  are strs; and the body of the item augmented with them.
\<close>

definition title_text :: "env \<Rightarrow> json \<Rightarrow> string option" where
  "title_text E p =
     (case dict_get p ''title'' (JStr '''') of
        Inl e \<Rightarrow> None
      | Inr t \<Rightarrow> Some (fmt E (py_or t (JStr ''''))))"

definition original_body :: "json \<Rightarrow> string option" where
  "original_body p =
     (case dict_get p ''selftext'' (JStr '''') of
        Inl e \<Rightarrow> None
      | Inr s \<Rightarrow> str_value (py_or s (JStr '''')))"

definition comment_bodies :: "env \<Rightarrow> int \<Rightarrow> nat \<Rightarrow> string list option" where
  "comment_bodies E comments_limit n =
     those (map str_value (fst (list_comments E comments_limit n)))"

definition augmented_body :: "env \<Rightarrow> int \<Rightarrow> json \<times> nat \<Rightarrow> string option" where
  "augmented_body E comments_limit it =
     (case original_body (fst it) of
        None \<Rightarrow> None
      | Some body0 \<Rightarrow>
          (case comment_bodies E comments_limit (snd it) of
             None \<Rightarrow> None
           | Some cms \<Rightarrow> Some (strip (body0 @ NL @ join NL cms))))"

text \<open>An item matches when its title + newline + augmented body has a matched keyword.\<close>

definition matches_commented :: "env \<Rightarrow> int \<Rightarrow> json \<times> nat \<Rightarrow> bool" where
  "matches_commented E comments_limit it =
     (case title_text E (fst it) of
        None \<Rightarrow> False
      | Some t \<Rightarrow>
          (case augmented_body E comments_limit it of
             None \<Rightarrow> False
           | Some b \<Rightarrow> contains_keywords (t @ NL @ b) KEYWORDS \<noteq> []))"

text \<open>
  The row \<open>r\<close> is the row of the item \<open>it\<close>: the loop body, run on the item at the call that
  fetches its comments, gives \<open>r\<close>; the selftext of \<open>r\<close> is the original body of the item;
  and the matched keywords, the high-priority flag and the score of \<open>r\<close> are those of the
  title and the augmented body.
\<close>

definition commented_row_of :: "env \<Rightarrow> int \<Rightarrow> json \<times> nat \<Rightarrow> row \<Rightarrow> bool" where
  "commented_row_of E comments_limit it r =
     (process_post E True comments_limit (fst it) (snd it) = Inr (Some r, snd it + 1)
      \<and> (case title_text E (fst it) of
           None \<Rightarrow> False
         | Some t \<Rightarrow>
             (case original_body (fst it) of
                None \<Rightarrow> False
              | Some body0 \<Rightarrow>
                  (case augmented_body E comments_limit it of
                     None \<Rightarrow> False
                   | Some b \<Rightarrow>
                       fmt E (r_title r) = t
                     \<and> r_selftext r = JStr body0
                     \<and> r_matched_keywords r
                         = join '';'' (contains_keywords (t @ NL @ b) KEYWORDS)
                     \<and> r_high_priority r = high_priority (t @ NL @ b)
                     \<and> score_post t b (r_score r) (r_num_comments r)
                         = Inr (r_eas_score r)))))"

lemma list_comments_next: "list_comments E comments_limit n = (cm, n') \<Longrightarrow> n' = n + 1"
  by (auto simp add: list_comments_def split: json.splits list.splits sum.splits)

lemma those_map_JStr: "those (map str_value (map JStr cms)) = Some cms"
  by (induction cms) simp_all

lemma process_post_commented:
  assumes "process_post E True climit p n = Inr (ro, n')"
  shows "n' = n + 1"
    and "matches_commented E climit (p, n)
           \<Longrightarrow> \<exists>r. ro = Some r \<and> commented_row_of E climit (p, n) r"
    and "\<not> matches_commented E climit (p, n) \<Longrightarrow> ro = None"
proof -
  from assms obtain t where t: "dict_get p ''title'' (JStr '''') = Inr t"
    and r1: "ebind (dict_get p ''selftext'' (JStr '''')) (\<lambda>s.
     ebind (if True
            then (case list_comments E climit n of
                    (cm, n') \<Rightarrow> ebind (augment (py_or s (JStr '''')) cm) (\<lambda>b. Inr (b, n')))
            else Inr (py_or s (JStr ''''), n)) (\<lambda>(body, n').
       if contains_keywords (fmt E (py_or t (JStr '''')) @ NL @ fmt E body) KEYWORDS \<noteq> []
       then ebind (make_row E p (py_or t (JStr '''')) body) (\<lambda>r. Inr (Some r, n'))
       else Inr (None, n'))) = Inr (ro, n')"
    unfolding process_post_def by (rule ebind_InrE)
  from r1 obtain s where s: "dict_get p ''selftext'' (JStr '''') = Inr s"
    and r2: "ebind (case list_comments E climit n of
                    (cm, n') \<Rightarrow> ebind (augment (py_or s (JStr '''')) cm) (\<lambda>b. Inr (b, n')))
       (\<lambda>(body, n').
       if contains_keywords (fmt E (py_or t (JStr '''')) @ NL @ fmt E body) KEYWORDS \<noteq> []
       then ebind (make_row E p (py_or t (JStr '''')) body) (\<lambda>r. Inr (Some r, n'))
       else Inr (None, n')) = Inr (ro, n')"
    by (auto elim: ebind_InrE)
  obtain cm n1 where lc: "list_comments E climit n = (cm, n1)"
    by (cases "list_comments E climit n")
  from list_comments_next [OF lc] have n1: "n1 = n + 1" .
  from r2 lc obtain body where a: "augment (py_or s (JStr '''')) cm = Inr body"
    and r3: "(if contains_keywords (fmt E (py_or t (JStr '''')) @ NL @ fmt E body) KEYWORDS
                 \<noteq> []
       then ebind (make_row E p (py_or t (JStr '''')) body) (\<lambda>r. Inr (Some r, n1))
       else Inr (None, n1)) = Inr (ro, n')"
    by (auto elim!: ebind_InrE)
  from a obtain body0 cms where
    au: "py_or s (JStr '''') = JStr body0" "cm = map JStr cms"
        "body = JStr (strip (body0 @ NL @ join NL cms))"
    by (rule augment_Inr)
  have fb: "fmt E body = strip (body0 @ NL @ join NL cms)"
    using au(3) by (simp add: fmt_def)
  have tt: "title_text E p = Some (fmt E (py_or t (JStr '''')))"
    by (simp add: title_text_def t)
  have ob: "original_body p = Some body0"
    by (simp add: original_body_def s au(1))
  have cb: "comment_bodies E climit n = Some cms"
    using those_map_JStr [of cms] by (simp add: comment_bodies_def lc au(2))
  have ab: "augmented_body E climit (p, n) = Some (fmt E body)"
    by (simp add: augmented_body_def ob cb fb)
  have mc: "matches_commented E climit (p, n)
      = (contains_keywords (fmt E (py_or t (JStr '''')) @ NL @ fmt E body) KEYWORDS \<noteq> [])"
    by (simp add: matches_commented_def tt ab)
  from r3 show n': "n' = n + 1"
    using n1 by (auto split: if_splits elim: ebind_InrE)
  from r3 mc show "ro = None" if "\<not> matches_commented E climit (p, n)"
    using that by simp
  show "\<exists>r. ro = Some r \<and> commented_row_of E climit (p, n) r"
    if m: "matches_commented E climit (p, n)"
  proof -
    from r3 m mc obtain r where mr: "make_row E p (py_or t (JStr '''')) body = Inr r"
      and ro: "ro = Some r"
      by (auto elim: ebind_InrE)
    from assms ro n' have pp: "process_post E True climit p n = Inr (Some r, n + 1)"
      by simp
    from make_row_Inr [OF mr] s au(1) have
      f: "r_title r = py_or t (JStr '''')" "r_selftext r = JStr body0"
         "r_matched_keywords r
             = join '';'' (contains_keywords (fmt E (py_or t (JStr '''')) @ NL @ fmt E body)
                 KEYWORDS)"
         "r_high_priority r = high_priority (fmt E (py_or t (JStr '''')) @ NL @ fmt E body)"
         "score_post (fmt E (py_or t (JStr ''''))) (fmt E body) (r_score r) (r_num_comments r)
             = Inr (r_eas_score r)"
      by auto
    have "commented_row_of E climit (p, n) r"
      unfolding commented_row_of_def using pp tt ob ab f by simp
    with ro show ?thesis by blast
  qed
qed

lemma harvest_posts_commented:
  assumes "harvest_posts E True climit rows n ps = Inr (rows', n')"
  shows "n' = n + length ps
       \<and> (\<exists>new. rows' = rows @ new
            \<and> list_all2 (commented_row_of E climit)
                (filter (matches_commented E climit) (zip ps [n ..< n + length ps])) new)"
  using assms
proof (induction ps arbitrary: rows n)
  case Nil
  then show ?case by simp
next
  case (Cons p ps)
  from Cons.prems obtain v where v: "process_post E True climit p n = Inr v"
    and rest: "(case v of (r, n1) \<Rightarrow>
       harvest_posts E True climit (case r of None \<Rightarrow> rows | Some x \<Rightarrow> rows @ [x]) n1 ps)
      = Inr (rows', n')"
    by (auto elim: ebind_InrE)
  obtain ro n1 where vv: "v = (ro, n1)" by (cases v)
  from process_post_commented [OF v [unfolded vv]] have
    n1: "n1 = n + 1"
    and yes: "matches_commented E climit (p, n)
                \<Longrightarrow> \<exists>r. ro = Some r \<and> commented_row_of E climit (p, n) r"
    and no: "\<not> matches_commented E climit (p, n) \<Longrightarrow> ro = None" by blast+
  from rest vv n1 have rest': "harvest_posts E True climit
      (case ro of None \<Rightarrow> rows | Some x \<Rightarrow> rows @ [x]) (n + 1) ps = Inr (rows', n')" by simp
  from Cons.IH [OF rest'] obtain new where new: "n' = n + 1 + length ps"
    "rows' = (case ro of None \<Rightarrow> rows | Some x \<Rightarrow> rows @ [x]) @ new"
    "list_all2 (commented_row_of E climit)
       (filter (matches_commented E climit) (zip ps [n + 1 ..< n + 1 + length ps])) new"
    by blast
  have z: "zip (p # ps) [n ..< n + length (p # ps)]
      = (p, n) # zip ps [n + 1 ..< n + 1 + length ps]"
    by (simp add: upt_conv_Cons del: upt_Suc)
  have len: "n' = n + length (p # ps)" using new(1) by simp
  show ?case
  proof (cases "matches_commented E climit (p, n)")
    case True
    from yes [OF True] obtain r where r: "ro = Some r" "commented_row_of E climit (p, n) r"
      by blast
    from new(2) r(1) have a: "rows' = rows @ (r # new)" by simp
    from new(3) r(2) True have b: "list_all2 (commented_row_of E climit)
       (filter (matches_commented E climit) (zip (p # ps) [n ..< n + length (p # ps)]))
       (r # new)"
      unfolding z by simp
    from len a b show ?thesis by blast
  next
    case False
    from no [OF False] new(2) have a: "rows' = rows @ new" by simp
    from new(3) False have b: "list_all2 (commented_row_of E climit)
       (filter (matches_commented E climit) (zip (p # ps) [n ..< n + length (p # ps)])) new"
      unfolding z by simp
    from len a b show ?thesis by blast
  qed
qed

lemma harvest_subs_commented:
  assumes "harvest_subs E verbose since_utc cap True climit rows n subs = Inr (rows', n')"
  shows "\<exists>items new. walk_subs_commented E verbose since_utc cap n subs = Inr items
           \<and> rows' = rows @ new
           \<and> list_all2 (commented_row_of E climit)
               (filter (matches_commented E climit) items) new"
  using assms
proof (induction subs arbitrary: rows n)
  case Nil
  then show ?case by simp
next
  case (Cons sub subs)
  from Cons.prems obtain v where v: "list_new_posts E verbose since_utc cap n = Inr v"
    and r1: "(case v of (posts, n1) \<Rightarrow>
        ebind (harvest_posts E True climit rows n1 posts) (\<lambda>(rows1, n2).
          harvest_subs E verbose since_utc cap True climit rows1 n2 subs)) = Inr (rows', n')"
    by (auto elim: ebind_InrE)
  obtain posts n1 where vv: "v = (posts, n1)" by (cases v)
  with r1 obtain w where w: "harvest_posts E True climit rows n1 posts = Inr w"
    and r2: "(case w of (rows1, n2) \<Rightarrow>
          harvest_subs E verbose since_utc cap True climit rows1 n2 subs) = Inr (rows', n')"
    by (auto elim: ebind_InrE)
  obtain rows1 n2 where ww: "w = (rows1, n2)" by (cases w)
  from harvest_posts_commented [OF w [unfolded ww]] obtain new1 where
    p1: "n2 = n1 + length posts" "rows1 = rows @ new1"
        "list_all2 (commented_row_of E climit)
           (filter (matches_commented E climit) (zip posts [n1 ..< n1 + length posts])) new1"
    by blast
  from r2 ww p1(1) have r3:
    "harvest_subs E verbose since_utc cap True climit rows1 (n1 + length posts) subs
      = Inr (rows', n')" by simp
  from Cons.IH [OF r3] obtain rest new2 where
    p2: "walk_subs_commented E verbose since_utc cap (n1 + length posts) subs = Inr rest"
        "rows' = rows1 @ new2"
        "list_all2 (commented_row_of E climit) (filter (matches_commented E climit) rest) new2"
    by blast
  have "walk_subs_commented E verbose since_utc cap n (sub # subs)
      = Inr (zip posts [n1 ..< n1 + length posts] @ rest)"
    using v vv p2(1) by simp
  moreover have "rows' = rows @ (new1 @ new2)" using p1(2) p2(2) by simp
  moreover have "list_all2 (commented_row_of E climit)
      (filter (matches_commented E climit) (zip posts [n1 ..< n1 + length posts] @ rest))
      (new1 @ new2)"
    using p1(3) p2(3) by (simp add: list_all2_appendI)
  ultimately show ?case by blast
qed

lemma list_all2_right_member:
  assumes "list_all2 R xs ys" "y \<in> set ys"
  shows "\<exists>x\<in>set xs. R x y"
  using assms by (induction rule: list_all2_induct) auto

definition commented_post :: json where
  "commented_post =
     JObj [(''id'', JStr ''p1''), (''created_utc'', JFloat 1700003600),
           (''title'', JStr ''Loud noise''), (''selftext'', JStr ''Anyone?''),
           (''permalink'', JStr ''/r/x/p1''), (''score'', JInt 5)]"

definition commented_feed :: "nat \<Rightarrow> json" where
  "commented_feed n =
     (if n = 0
      then listing [commented_post] JNull
      else JArr [JObj [], JObj [(''data'', JObj [(''children'',
             JArr [JObj [(''kind'', JStr ''t1''),
                         (''data'', JObj [(''body'', JStr ''Shooting'')])]])])]])"

definition commented_row :: row where
  "commented_row =
     \<lparr>r_id = JStr ''p1'', r_created_utc = JFloat 1700003600, r_created_iso = '''',
      r_subreddit = JNull, r_author = JNull, r_title = JStr ''Loud noise'',
      r_selftext = JStr ''Anyone?'', r_url = JNull,
      r_permalink = ''https://reddit.com/r/x/p1'', r_score = JInt 5,
      r_num_comments = JInt 0, r_comments_scanned = 0,
      r_matched_keywords = ''shooting'', r_high_priority = True, r_eas_score = 25 / 2\<rparr>"

text \<open>
  C9. With comment inclusion enabled, the rows harvest emits are, up to the final sort, the
  rows of the walked items that match, one for each, in order; so every emitted row is the
  row of a walked item. The selftext of the row is the original body of that item (a str),
  with no comment body appended, while the matched keywords, the high-priority flag and the
  score of the row are those of the title and the body augmented with the comments fetched
  for that item.
\<close>

theorem harvest_selftext_without_comments:
  assumes "harvest E subs hours max_per_sub True comments_limit verbose = Inr rows"
  shows "\<exists>since_utc items unsorted.
           cutoff_of E hours = Some since_utc
         \<and> walk_subs_commented E verbose since_utc max_per_sub 0 subs = Inr items
         \<and> list_all2 (commented_row_of E comments_limit)
             (filter (matches_commented E comments_limit) items) unsorted
         \<and> mset rows = mset unsorted
         \<and> (\<forall>r\<in>set rows. \<exists>it\<in>set items. commented_row_of E comments_limit it r)"
proof -
  from assms obtain since_utc unsorted n where h:
    "cutoff_of E hours = Some since_utc"
    "harvest_subs E verbose since_utc max_per_sub True comments_limit [] 0 subs
       = Inr (unsorted, n)"
    "sort_rows unsorted = Inr rows"
    by (rule harvest_Inr)
  from harvest_subs_commented [OF h(2)] obtain items where
    w: "walk_subs_commented E verbose since_utc max_per_sub 0 subs = Inr items"
    and l: "list_all2 (commented_row_of E comments_limit)
         (filter (matches_commented E comments_limit) items) unsorted"
    by auto
  from sort_rows_mset [OF h(3)] have m: "mset rows = mset unsorted" .
  then have "set rows = set unsorted" by (rule mset_eq_setD)
  with list_all2_right_member [OF l]
  have a: "\<forall>r\<in>set rows. \<exists>it\<in>set items. commented_row_of E comments_limit it r"
    by auto
  from h(1) w l m a show ?thesis by blast
qed

theorem harvest_selftext_without_comments_witness:
  "harvest (test_env commented_feed) [''AlexandriaVA''] 48 300 True 20 False
     = Inr [commented_row]
   \<and> walk_subs_commented (test_env commented_feed) False (1700000000 - 3600 * 48) 300 0
       [''AlexandriaVA''] = Inr [(commented_post, 1)]
   \<and> original_body commented_post = Some ''Anyone?''
   \<and> comment_bodies (test_env commented_feed) 20 1 = Some [''Shooting'']
   \<and> augmented_body (test_env commented_feed) 20 (commented_post, 1)
       = Some (''Anyone?'' @ NL @ ''Shooting'')
   \<and> commented_row_of (test_env commented_feed) 20 (commented_post, 1) commented_row
   \<and> r_selftext commented_row = JStr ''Anyone?''
   \<and> r_matched_keywords commented_row = ''shooting''
   \<and> (\<exists>since_utc items unsorted.
           cutoff_of (test_env commented_feed) 48 = Some since_utc
         \<and> walk_subs_commented (test_env commented_feed) False since_utc 300 0
             [''AlexandriaVA''] = Inr items
         \<and> list_all2 (commented_row_of (test_env commented_feed) 20)
             (filter (matches_commented (test_env commented_feed) 20) items) unsorted
         \<and> mset [commented_row] = mset unsorted
         \<and> (\<forall>r\<in>set [commented_row].
               \<exists>it\<in>set items. commented_row_of (test_env commented_feed) 20 it r))"
proof -
  have e: "harvest (test_env commented_feed) [''AlexandriaVA''] 48 300 True 20 False
     = Inr [commented_row]"
    by code_simp
  have w: "walk_subs_commented (test_env commented_feed) False (1700000000 - 3600 * 48) 300 0
       [''AlexandriaVA''] = Inr [(commented_post, 1)]"
    by code_simp
  have o: "original_body commented_post = Some ''Anyone?''"
    by code_simp
  have c: "comment_bodies (test_env commented_feed) 20 1 = Some [''Shooting'']"
    by code_simp
  have a: "augmented_body (test_env commented_feed) 20 (commented_post, 1)
       = Some (''Anyone?'' @ NL @ ''Shooting'')"
    by code_simp
  have r: "commented_row_of (test_env commented_feed) 20 (commented_post, 1) commented_row"
    by code_simp
  have s: "r_selftext commented_row = JStr ''Anyone?''"
    "r_matched_keywords commented_row = ''shooting''"
    by (simp_all add: commented_row_def)
  note t = harvest_selftext_without_comments [OF e]
  show ?thesis
    by (intro conjI e w o c a r s t)
qed


subsection \<open>Payloads of any shape\<close>

text \<open>
  The payload the fetcher returns when it gives up is the empty dict. On such payloads the
  walker returns no items and harvest returns no rows.
\<close>

lemma list_new_posts_no_data:
  assumes "\<And>k. payloads E k = JObj []"
  shows "\<exists>n'. list_new_posts E verbose since_utc max_items n = Inr ([], n')"
  unfolding list_new_posts_def
  by (subst list_new_posts_from.simps) (simp add: assms)

lemma harvest_subs_no_data:
  assumes "\<And>k. payloads E k = JObj []"
  shows "\<exists>n'. harvest_subs E verbose since_utc max_per_sub include_comments comments_limit
           [] n subs = Inr ([], n')"
proof (induction subs arbitrary: n)
  case Nil
  show ?case by simp
next
  case (Cons sub subs)
  from list_new_posts_no_data [OF assms] obtain n1 where
    "list_new_posts E verbose since_utc max_per_sub n = Inr ([], n1)" by blast
  with Cons.IH [of n1] show ?case by simp
qed

lemma harvest_no_data:
  assumes "\<And>k. payloads E k = JObj []" and "cutoff_of E hours = Some since_utc"
  shows "harvest E subs hours max_per_sub include_comments comments_limit verbose = Inr []"
proof -
  from harvest_subs_no_data [OF assms(1)] obtain n' where
    "harvest_subs E verbose since_utc max_per_sub include_comments comments_limit [] 0 subs
       = Inr ([], n')" by blast
  with assms(2) show ?thesis by (simp add: harvest_def sort_rows_def)
qed

text \<open>
  C4. The specification has harvest return normally for payloads of any shape. The walker
  calls \<^verbatim>\<open>data.get\<close> on the payload without the test that \<^verbatim>\<open>list_comments\<close> makes
  (\<^verbatim>\<open>isinstance(data, list)\<close>) and outside any \<^verbatim>\<open>try\<close>: when the fetcher returns a JSON
  array for a listing, harvest raises AttributeError.
\<close>

theorem harvest_raises_on_array_payload:
  "harvest (test_env (\<lambda>n. JArr [])) [''AlexandriaVA''] 48 300 False 20 False
     = Inl AttributeError"
  by code_simp

text \<open>
  A listing of the usual shape can end harvest too: the permalink of a matching post is
  null, and \<^verbatim>\<open>"https://reddit.com" + None\<close> raises TypeError.
\<close>

definition null_permalink_page :: json where
  "null_permalink_page =
     listing [JObj [(''id'', JStr ''p1''), (''created_utc'', JFloat 1700003600),
                    (''title'', JStr ''Fire''), (''permalink'', JNull)]] JNull"

lemma harvest_raises_on_null_permalink:
  "harvest (test_env (\<lambda>n. null_permalink_page)) [''AlexandriaVA''] 48 300 False 20 False
     = Inl TypeError"
  by code_simp

subsection \<open>Rows and matching items\<close>

text \<open>
  Without comments: the combined title + newline + body text of an item, the row built from
  it, whether it matches the filter, and the items the walker returns for the sources in
  turn.
\<close>

definition item_text :: "env \<Rightarrow> json \<Rightarrow> string" where
  "item_text E p =
     (case dict_get p ''title'' (JStr '''') of
        Inl e \<Rightarrow> []
      | Inr t \<Rightarrow>
          (case dict_get p ''selftext'' (JStr '''') of
             Inl e \<Rightarrow> []
           | Inr s \<Rightarrow> fmt E (py_or t (JStr '''')) @ NL @ fmt E (py_or s (JStr ''''))))"

definition item_row :: "env \<Rightarrow> json \<Rightarrow> error + row" where
  "item_row E p =
     ebind (dict_get p ''title'' (JStr '''')) (\<lambda>t.
     ebind (dict_get p ''selftext'' (JStr '''')) (\<lambda>s.
       make_row E p (py_or t (JStr '''')) (py_or s (JStr ''''))))"

definition matches :: "env \<Rightarrow> json \<Rightarrow> bool" where
  "matches E p = (contains_keywords (item_text E p) KEYWORDS \<noteq> [])"

fun walk_subs :: "env \<Rightarrow> bool \<Rightarrow> rat \<Rightarrow> int \<Rightarrow> nat \<Rightarrow> string list \<Rightarrow> error + json list" where
  "walk_subs E verbose since_utc max_per_sub n [] = Inr []"
| "walk_subs E verbose since_utc max_per_sub n (sub # subs) =
     ebind (list_new_posts E verbose since_utc max_per_sub n) (\<lambda>(posts, n').
     ebind (walk_subs E verbose since_utc max_per_sub n' subs) (\<lambda>rest.
       Inr (posts @ rest)))"

lemma process_post_plain:
  assumes "process_post E False climit p n = Inr (ro, n')"
  shows "n' = n"
    and "matches E p \<Longrightarrow> \<exists>r. ro = Some r \<and> item_row E p = Inr r"
    and "\<not> matches E p \<Longrightarrow> ro = None"
proof -
  from assms obtain t where t: "dict_get p ''title'' (JStr '''') = Inr t"
    and r1: "ebind (dict_get p ''selftext'' (JStr '''')) (\<lambda>s.
     ebind (if False
            then (case list_comments E climit n of
                    (cm, n') \<Rightarrow> ebind (augment (py_or s (JStr '''')) cm) (\<lambda>b. Inr (b, n')))
            else Inr (py_or s (JStr ''''), n)) (\<lambda>(body, n').
       if contains_keywords (fmt E (py_or t (JStr '''')) @ NL @ fmt E body) KEYWORDS \<noteq> []
       then ebind (make_row E p (py_or t (JStr '''')) body) (\<lambda>r. Inr (Some r, n'))
       else Inr (None, n'))) = Inr (ro, n')"
    unfolding process_post_def by (rule ebind_InrE)
  from r1 obtain s where s: "dict_get p ''selftext'' (JStr '''') = Inr s"
    and r2: "(if contains_keywords (fmt E (py_or t (JStr '''')) @ NL
                  @ fmt E (py_or s (JStr ''''))) KEYWORDS \<noteq> []
       then ebind (make_row E p (py_or t (JStr '''')) (py_or s (JStr '''')))
              (\<lambda>r. Inr (Some r, n))
       else Inr (None, n)) = Inr (ro, n')"
    by (auto elim: ebind_InrE)
  have itx: "item_text E p = fmt E (py_or t (JStr '''')) @ NL @ fmt E (py_or s (JStr ''''))"
    by (simp add: item_text_def t s)
  have row: "item_row E p = make_row E p (py_or t (JStr '''')) (py_or s (JStr ''''))"
    by (simp add: item_row_def t s)
  from r2 show "n' = n" by (auto split: if_splits elim: ebind_InrE)
  from r2 show "\<exists>r. ro = Some r \<and> item_row E p = Inr r" if "matches E p"
    using that by (auto simp add: matches_def itx row elim: ebind_InrE)
  from r2 show "ro = None" if "\<not> matches E p"
    using that by (auto simp add: matches_def itx)
qed

lemma harvest_posts_plain:
  assumes "harvest_posts E False climit rows n ps = Inr (rows', n')"
  shows "n' = n \<and> (\<exists>new. rows' = rows @ new
           \<and> list_all2 (\<lambda>p r. item_row E p = Inr r) (filter (matches E) ps) new)"
  using assms
proof (induction ps arbitrary: rows)
  case Nil
  then show ?case by simp
next
  case (Cons p ps)
  from Cons.prems obtain v where v: "process_post E False climit p n = Inr v"
    and rest: "(case v of (r, n1) \<Rightarrow>
       harvest_posts E False climit (case r of None \<Rightarrow> rows | Some x \<Rightarrow> rows @ [x]) n1 ps)
      = Inr (rows', n')"
    by (auto elim: ebind_InrE)
  obtain ro n1 where vv: "v = (ro, n1)" by (cases v)
  from process_post_plain [OF v [unfolded vv]] have
    n1: "n1 = n" and yes: "matches E p \<Longrightarrow> \<exists>r. ro = Some r \<and> item_row E p = Inr r"
    and no: "\<not> matches E p \<Longrightarrow> ro = None" by blast+
  from rest vv n1 have rest': "harvest_posts E False climit
      (case ro of None \<Rightarrow> rows | Some x \<Rightarrow> rows @ [x]) n ps = Inr (rows', n')" by simp
  from Cons.IH [OF rest'] obtain new where new: "n' = n"
    "rows' = (case ro of None \<Rightarrow> rows | Some x \<Rightarrow> rows @ [x]) @ new"
    "list_all2 (\<lambda>p r. item_row E p = Inr r) (filter (matches E) ps) new" by blast
  show ?case
  proof (cases "matches E p")
    case True
    from yes [OF True] obtain r where r: "ro = Some r" "item_row E p = Inr r" by blast
    with new True have "rows' = rows @ (r # new)"
      "list_all2 (\<lambda>p r. item_row E p = Inr r) (filter (matches E) (p # ps)) (r # new)"
      by simp_all
    with new(1) show ?thesis by blast
  next
    case False
    from no [OF False] new False show ?thesis by simp
  qed
qed

lemma harvest_subs_plain:
  assumes "harvest_subs E verbose since_utc cap False climit rows n subs = Inr (rows', n')"
  shows "\<exists>posts new. walk_subs E verbose since_utc cap n subs = Inr posts
           \<and> rows' = rows @ new
           \<and> list_all2 (\<lambda>p r. item_row E p = Inr r) (filter (matches E) posts) new"
  using assms
proof (induction subs arbitrary: rows n)
  case Nil
  then show ?case by simp
next
  case (Cons sub subs)
  from Cons.prems obtain v where v: "list_new_posts E verbose since_utc cap n = Inr v"
    and r1: "(case v of (posts, n1) \<Rightarrow>
        ebind (harvest_posts E False climit rows n1 posts) (\<lambda>(rows1, n2).
          harvest_subs E verbose since_utc cap False climit rows1 n2 subs)) = Inr (rows', n')"
    by (auto elim: ebind_InrE)
  obtain posts n1 where vv: "v = (posts, n1)" by (cases v)
  with r1 obtain w where w: "harvest_posts E False climit rows n1 posts = Inr w"
    and r2: "(case w of (rows1, n2) \<Rightarrow>
          harvest_subs E verbose since_utc cap False climit rows1 n2 subs) = Inr (rows', n')"
    by (auto elim: ebind_InrE)
  obtain rows1 n2 where ww: "w = (rows1, n2)" by (cases w)
  from harvest_posts_plain [OF w [unfolded ww]] obtain new1 where
    p1: "n2 = n1" "rows1 = rows @ new1"
        "list_all2 (\<lambda>p r. item_row E p = Inr r) (filter (matches E) posts) new1" by blast
  from r2 ww p1(1) have r3: "harvest_subs E verbose since_utc cap False climit rows1 n1 subs
      = Inr (rows', n')" by simp
  from Cons.IH [OF r3] obtain rest new2 where
    p2: "walk_subs E verbose since_utc cap n1 subs = Inr rest" "rows' = rows1 @ new2"
        "list_all2 (\<lambda>p r. item_row E p = Inr r) (filter (matches E) rest) new2" by blast
  have "walk_subs E verbose since_utc cap n (sub # subs) = Inr (posts @ rest)"
    using v vv p2(1) by simp
  moreover have "rows' = rows @ (new1 @ new2)" using p1(2) p2(2) by simp
  moreover have "list_all2 (\<lambda>p r. item_row E p = Inr r)
      (filter (matches E) (posts @ rest)) (new1 @ new2)"
    using p1(3) p2(3) by (simp add: list_all2_appendI)
  ultimately show ?case by blast
qed

lemma set_contains_keywords: "set (contains_keywords text kws) \<subseteq> set kws"
  by (auto simp add: contains_keywords_def)

lemma emitted_keywords:
  assumes "emitted E inc climit r"
  shows "\<exists>kws. kws \<noteq> [] \<and> set kws \<subseteq> set KEYWORDS \<and> r_matched_keywords r = join '';'' kws"
proof -
  from assms obtain p n n' where
    "process_post E inc climit p n = Inr (Some r, n')"
    unfolding emitted_def by blast
  then obtain t s body where
    k: "contains_keywords (fmt E (py_or t (JStr '''')) @ NL @ fmt E body) KEYWORDS \<noteq> []"
    and m: "make_row E p (py_or t (JStr '''')) body = Inr r"
    by (rule process_post_Some)
  from make_row_Inr(3) [OF m] k set_contains_keywords show ?thesis by blast
qed

definition mixed_page :: json where
  "mixed_page =
     listing [JObj [(''id'', JStr ''p1''), (''created_utc'', JFloat 1700003600),
                    (''title'', JStr ''Hello''), (''permalink'', JStr ''/r/x/p1'')],
              JObj [(''id'', JStr ''p2''), (''created_utc'', JFloat 1700003000),
                    (''title'', JStr ''Fire''), (''permalink'', JStr ''/r/x/p2'')]] JNull"

definition fire_row :: row where
  "fire_row =
     \<lparr>r_id = JStr ''p2'', r_created_utc = JFloat 1700003000, r_created_iso = '''',
      r_subreddit = JNull, r_author = JNull, r_title = JStr ''Fire'',
      r_selftext = JStr '''', r_url = JNull,
      r_permalink = ''https://reddit.com/r/x/p2'', r_score = JInt 0,
      r_num_comments = JInt 0, r_comments_scanned = 0,
      r_matched_keywords = ''fire'', r_high_priority = False, r_eas_score = 3 / 2\<rparr>"

text \<open>
  C7. Every row harvest emits has a non-empty set of matched keywords. When comments are not
  included (so that no augmentation changes the text), an item the walker returned appears
  in the result exactly when the matched keywords of its title + newline + body are not
  empty: the rows are, up to the final sort, the rows of the matching items, one for each,
  in order.
\<close>

theorem harvest_rows_are_matches:
  assumes "harvest E subs hours max_per_sub include_comments comments_limit verbose = Inr rows"
  shows "(\<forall>r\<in>set rows. \<exists>kws. kws \<noteq> [] \<and> set kws \<subseteq> set KEYWORDS
            \<and> r_matched_keywords r = join '';'' kws)
       \<and> (\<not> include_comments \<longrightarrow>
            (\<exists>since_utc posts unsorted.
               cutoff_of E hours = Some since_utc
             \<and> walk_subs E verbose since_utc max_per_sub 0 subs = Inr posts
             \<and> list_all2 (\<lambda>p r. item_row E p = Inr r) (filter (matches E) posts) unsorted
             \<and> mset rows = mset unsorted))"
proof (intro conjI impI ballI)
  fix r assume "r \<in> set rows"
  with assms have "emitted E include_comments comments_limit r" by (rule harvest_emitted)
  then show "\<exists>kws. kws \<noteq> [] \<and> set kws \<subseteq> set KEYWORDS \<and> r_matched_keywords r = join '';'' kws"
    by (rule emitted_keywords)
next
  assume off: "\<not> include_comments"
  from assms obtain since_utc unsorted n where h:
    "cutoff_of E hours = Some since_utc"
    "harvest_subs E verbose since_utc max_per_sub include_comments comments_limit [] 0 subs
       = Inr (unsorted, n)"
    "sort_rows unsorted = Inr rows"
    by (rule harvest_Inr)
  from h(2) off have "harvest_subs E verbose since_utc max_per_sub False comments_limit [] 0 subs
       = Inr (unsorted, n)" by simp
  from harvest_subs_plain [OF this] obtain posts where
    "walk_subs E verbose since_utc max_per_sub 0 subs = Inr posts"
    "list_all2 (\<lambda>p r. item_row E p = Inr r) (filter (matches E) posts) unsorted"
    by auto
  with h(1) sort_rows_mset [OF h(3)]
  show "\<exists>since_utc posts unsorted.
               cutoff_of E hours = Some since_utc
             \<and> walk_subs E verbose since_utc max_per_sub 0 subs = Inr posts
             \<and> list_all2 (\<lambda>p r. item_row E p = Inr r) (filter (matches E) posts) unsorted
             \<and> mset rows = mset unsorted"
    by blast
qed

theorem harvest_rows_are_matches_witness:
  "harvest (test_env (\<lambda>n. mixed_page)) [''AlexandriaVA''] 48 300 False 20 False
     = Inr [fire_row]
   \<and> r_matched_keywords fire_row = ''fire''
   \<and> (\<exists>since_utc posts unsorted.
         cutoff_of (test_env (\<lambda>n. mixed_page)) 48 = Some since_utc
       \<and> walk_subs (test_env (\<lambda>n. mixed_page)) False since_utc 300 0 [''AlexandriaVA'']
            = Inr posts
       \<and> list_all2 (\<lambda>p r. item_row (test_env (\<lambda>n. mixed_page)) p = Inr r)
            (filter (matches (test_env (\<lambda>n. mixed_page))) posts) unsorted
       \<and> mset [fire_row] = mset unsorted)"
proof -
  have e: "harvest (test_env (\<lambda>n. mixed_page)) [''AlexandriaVA''] 48 300 False 20 False
     = Inr [fire_row]"
    by code_simp
  have s: "r_matched_keywords fire_row = ''fire''"
    by (simp add: fire_row_def)
  from harvest_rows_are_matches [OF e] e s show ?thesis
    by blast
qed

end
